theory Spec2Isabelle
  imports Complex_Main "HOL-Library.Multiset"
begin

section \<open>Fine calculation (debtor service)\<close>

text \<open>
  The debtor service computes a fine from a balance given in minor units (cents):
  \<^verbatim>\<open>
  function calculateFine(balance) {
    return DineroTransformer.Instance.from(
      Math.max(Math.min(Math.floor(-balance.amount / 500) * 100, 500), 0));
  }
  \<close>
  A Dinero amount is an integer number of cents. \<open>-balance.amount / 500\<close> is a division of
  JavaScript numbers followed by \<open>Math.floor\<close>; on an integer amount this is the floor of the
  exact quotient, which is \<open>div\<close> on \<open>int\<close>.
\<close>

definition calculateFine :: "int \<Rightarrow> int" where
  "calculateFine amount = max (min ((- amount) div 500 * 100) 500) 0"

text \<open>The formula as the specification words it: a clamp of the floor of a real quotient.\<close>

definition clamp :: "int \<Rightarrow> int \<Rightarrow> int \<Rightarrow> int" where
  "clamp x lo hi = (if x < lo then lo else if hi < x then hi else x)"

definition specifiedFine :: "int \<Rightarrow> int" where
  "specifiedFine b = clamp (\<lfloor>- real_of_int b / 500\<rfloor> * 100) 0 500"

section \<open>Revisioned entities: products and containers\<close>

text \<open>
  Errors thrown by the services: \<open>new Error('Immutable entities cannot be updated.')\<close>,
  \<open>UnapprovedProductError\<close>, a property read on \<open>undefined\<close> (\<open>TypeError\<close>),
  \<open>new Error('User with ID ... does not exist')\<close>, the validation error of a transfer
  without endpoints, and a statement rejected by the database.
\<close>

datatype error =
    ImmutableEntity
  | UnapprovedProductError
  | TypeError
  | UserDoesNotExist nat
  | ValidationError
  | QueryFailed

text \<open>
  Base rows (\<open>Product\<close>, \<open>Container\<close>), the fields of a product request, which are also the
  columns of \<open>UpdatedProduct\<close> and \<open>ProductRevision\<close>, and the container records. The
  \<open>alcoholPercentage\<close> column is a decimal of scale 2, kept in hundredths. A field of a
  container response is absent when \<open>asContainerResponse\<close> reads a column that the raw row
  does not have.
\<close>

record Product =
  owner :: nat
  currentRevision :: "nat option"

record Container = Product +
  "public" :: bool

record ProductRequest =
  name :: string
  price :: int
  category :: nat
  alcoholPercentage :: int

record UpdatedContainer =
  containerName :: string
  products :: "nat list"

record ContainerRequest = UpdatedContainer +
  requestPublic :: bool

record ContainerRevision =
  revisionName :: string
  revisionProducts :: "(nat \<times> nat) list"

record ProductResponse =
  productId :: nat
  revision :: "nat option"
  body :: ProductRequest

record ContainerResponse =
  containerId :: "nat option"
  containerRevision :: "nat option"
  responseName :: "string option"

text \<open>
  The tables. Drafts are keyed by the id of their base row, revisions by
  (base id, revision number); base ids are handed out by an auto-increment counter.
\<close>

record store =
  productTable :: "nat \<rightharpoonup> Product"
  nextProductId :: nat
  updatedProductTable :: "nat \<rightharpoonup> ProductRequest"
  productRevisionTable :: "nat \<times> nat \<rightharpoonup> ProductRequest"
  containerTable :: "nat \<rightharpoonup> Container"
  nextContainerId :: nat
  updatedContainerTable :: "nat \<rightharpoonup> UpdatedContainer"
  containerRevisionTable :: "nat \<times> nat \<rightharpoonup> ContainerRevision"

definition emptyStore :: store where
  "emptyStore =
     \<lparr>productTable = Map.empty, nextProductId = 1, updatedProductTable = Map.empty,
      productRevisionTable = Map.empty, containerTable = Map.empty, nextContainerId = 1,
      updatedContainerTable = Map.empty, containerRevisionTable = Map.empty\<rparr>"

text \<open>
  A service call returns what it returns (or the error it throws) together with the store
  it leaves behind: a throw does not undo the writes made before it.
\<close>

type_synonym 'a result = "(error + 'a) \<times> store"

text \<open>
  \<open>base.currentRevision ? base.currentRevision + 1 : 1\<close>: \<open>null\<close>, \<open>undefined\<close> and \<open>0\<close> are
  falsy.
\<close>

definition nextRevision :: "nat option \<Rightarrow> nat" where
  "nextRevision cur = (case cur of None \<Rightarrow> 1 | Some c \<Rightarrow> if c = 0 then 1 else c + 1)"

text \<open>
  \<open>ProductRevision.save(productRevision)\<close>. The entity is keyed by (productId, revision): a
  new key is inserted; an existing row with other column values would be updated, and the
  \<open>@BeforeUpdate\<close> hook \<open>denyUpdate\<close> throws before the update is written; an existing row
  with the same values needs no update, so no hook runs.
\<close>

definition denyUpdate :: error where
  "denyUpdate = ImmutableEntity"

definition saveProductRevision :: "nat \<times> nat \<Rightarrow> ProductRequest \<Rightarrow> store \<Rightarrow> unit result" where
  "saveProductRevision key row s =
     (case productRevisionTable s key of
        None \<Rightarrow> (Inr (), s\<lparr>productRevisionTable := (productRevisionTable s)(key \<mapsto> row)\<rparr>)
      | Some old \<Rightarrow> if old = row then (Inr (), s) else (Inl denyUpdate, s))"

text \<open>
  \<open>(await this.getProducts({ productId }))[0]\<close>: the product joined with the revision that
  \<open>currentRevision\<close> names; \<open>undefined\<close> when the join is empty. The joins on owner and
  category follow non-null foreign keys and drop nothing.
\<close>

definition getProduct :: "nat \<Rightarrow> store \<Rightarrow> ProductResponse option" where
  "getProduct pid s =
     (case productTable s pid of
        None \<Rightarrow> None
      | Some base \<Rightarrow>
          (case currentRevision base of
             None \<Rightarrow> None
           | Some r \<Rightarrow>
               (case productRevisionTable s (pid, r) of
                  None \<Rightarrow> None
                | Some row \<Rightarrow> Some \<lparr>productId = pid, revision = Some r, body = row\<rparr>)))"

text \<open>\<open>(await this.getUpdatedProducts({ productId }))[0]\<close>: the product joined with its draft.\<close>

definition getUpdatedProduct :: "nat \<Rightarrow> store \<Rightarrow> ProductResponse option" where
  "getUpdatedProduct pid s =
     (case productTable s pid of
        None \<Rightarrow> None
      | Some base \<Rightarrow>
          (case updatedProductTable s pid of
             None \<Rightarrow> None
           | Some row \<Rightarrow> Some \<lparr>productId = pid, revision = None, body = row\<rparr>))"

text \<open>\<open>ProductService.createProduct(owner, product)\<close>\<close>

definition createProduct :: "nat \<Rightarrow> ProductRequest \<Rightarrow> store \<Rightarrow> ProductResponse option result" where
  "createProduct own product s =
     (let newId = nextProductId s;
          s1 = s\<lparr>productTable := (productTable s)(newId \<mapsto> \<lparr>owner = own, currentRevision = None\<rparr>),
                 nextProductId := newId + 1\<rparr>;
          s2 = s1\<lparr>updatedProductTable := (updatedProductTable s1)(newId \<mapsto> product)\<rparr>
      in (Inr (getUpdatedProduct newId s2), s2))"

text \<open>\<open>ProductService.updateProduct(productId, update)\<close>\<close>

definition updateProduct :: "nat \<Rightarrow> ProductRequest \<Rightarrow> store \<Rightarrow> ProductResponse option result" where
  "updateProduct pid update s =
     (case productTable s pid of
        None \<Rightarrow> (Inr None, s)
      | Some base \<Rightarrow>
          (let s1 = s\<lparr>updatedProductTable := (updatedProductTable s)(pid \<mapsto> update)\<rparr>
           in (Inr (getUpdatedProduct pid s1), s1)))"

text \<open>
  \<open>ProductService.approveProductUpdate(productId)\<close>: returns \<open>undefined\<close> when the base or
  the draft is missing; otherwise saves the revision, then the base with the incremented
  \<open>currentRevision\<close>, then deletes the draft. \<open>update.price.amount\<close> is read from the draft
  response, a \<open>TypeError\<close> if the query returned no row.
\<close>

definition approveProductUpdate :: "nat \<Rightarrow> store \<Rightarrow> ProductResponse option result" where
  "approveProductUpdate pid s =
     (case productTable s pid of
        None \<Rightarrow> (Inr None, s)
      | Some base \<Rightarrow>
          (case updatedProductTable s pid of
             None \<Rightarrow> (Inr None, s)
           | Some rawUpdateProduct \<Rightarrow>
               (case getUpdatedProduct pid s of
                  None \<Rightarrow> (Inl TypeError, s)
                | Some update \<Rightarrow>
                    (let rev = nextRevision (currentRevision base) in
                     case saveProductRevision (pid, rev) (body update) s of
                       (Inl e, s1) \<Rightarrow> (Inl e, s1)
                     | (Inr u, s1) \<Rightarrow>
                         (let s2 = s1\<lparr>productTable :=
                                     (productTable s1)(pid \<mapsto> base\<lparr>currentRevision := Some rev\<rparr>)\<rparr>;
                              s3 = s2\<lparr>updatedProductTable := (updatedProductTable s2)(pid := None)\<rparr>
                          in (Inr (getProduct pid s3), s3))))))"

text \<open>
  The two versions of \<open>ContainerService.approveContainerUpdate\<close> differ in what they do with
  a listed product that still has a draft: the earlier one approves it, the later one throws.
\<close>

datatype policy = Lax | Strict

text \<open>
  The container joined with its current revision, as \<open>getContainers({ containerId })\<close> returns
  it. The later version of \<open>asContainerResponse\<close> reads the columns \<open>id\<close>, \<open>revision\<close> and
  \<open>name\<close> of the raw row. The earlier version reads \<open>id: rawContainer.container_public\<close>: the
  id of its response is the column \<open>public\<close>, which the database returns as 0 or 1.
\<close>

definition getContainer :: "policy \<Rightarrow> nat \<Rightarrow> store \<Rightarrow> ContainerResponse option" where
  "getContainer pol cid s =
     (case containerTable s cid of
        None \<Rightarrow> None
      | Some base \<Rightarrow>
          (case currentRevision base of
             None \<Rightarrow> None
           | Some r \<Rightarrow>
               (case containerRevisionTable s (cid, r) of
                  None \<Rightarrow> None
                | Some row \<Rightarrow>
                    Some \<lparr>containerId = (case pol of
                                           Strict \<Rightarrow> Some cid
                                         | Lax \<Rightarrow> Some (if public base then 1 else 0)),
                          containerRevision = Some r,
                          responseName = Some (revisionName row)\<rparr>)))"

text \<open>
  The container joined with its draft, as \<open>getUpdatedContainers({ containerId })\<close> returns it.
  The query names its columns \<open>id\<close>, \<open>public\<close>, \<open>name\<close> in both versions and selects no
  revision; the earlier version of \<open>asContainerResponse\<close> reads \<open>container_public\<close>,
  \<open>container_revision\<close> and \<open>container_name\<close>, which such a row does not have.
\<close>

definition getUpdatedContainer :: "policy \<Rightarrow> nat \<Rightarrow> store \<Rightarrow> ContainerResponse option" where
  "getUpdatedContainer pol cid s =
     (case containerTable s cid of
        None \<Rightarrow> None
      | Some base \<Rightarrow>
          (case updatedContainerTable s cid of
             None \<Rightarrow> None
           | Some row \<Rightarrow>
               (case pol of
                  Strict \<Rightarrow>
                    Some \<lparr>containerId = Some cid, containerRevision = None,
                          responseName = Some (containerName row)\<rparr>
                | Lax \<Rightarrow>
                    Some \<lparr>containerId = None, containerRevision = None,
                          responseName = None\<rparr>)))"

text \<open>
  \<open>getProductsResponse(containerId, updated)\<close>: the first record of the query, to which the
  products are attached with \<open>containerProducts.products = ...\<close>, a \<open>TypeError\<close> if the query
  returned no record.
\<close>

definition getProductsResponse ::
  "policy \<Rightarrow> nat \<Rightarrow> bool \<Rightarrow> store \<Rightarrow> ContainerResponse option result" where
  "getProductsResponse pol cid updated s =
     (case (if updated then getUpdatedContainer pol cid s else getContainer pol cid s) of
        None \<Rightarrow> (Inl TypeError, s)
      | Some containerResponse \<Rightarrow> (Inr (Some containerResponse), s))"

text \<open>
  \<open>ContainerService.updateContainer(containerId, update)\<close>: ids that name no product are
  dropped (\<open>result.filter((p) => p)\<close>); the draft replaces an earlier one. The earlier version
  takes the id inside \<open>update\<close> and also accepts product requests in the list, which it hands
  to \<open>ProductService.updateProduct\<close> and \<open>createProduct\<close> first; the list here holds ids.
\<close>

definition updateContainer ::
  "policy \<Rightarrow> nat \<Rightarrow> ContainerRequest \<Rightarrow> store \<Rightarrow> ContainerResponse option result" where
  "updateContainer pol cid update s =
     (case containerTable s cid of
        None \<Rightarrow> (Inr None, s)
      | Some base \<Rightarrow>
          (let found = filter (\<lambda>p. productTable s p \<noteq> None) (products update);
               s1 = s\<lparr>updatedContainerTable := (updatedContainerTable s)
                        (cid \<mapsto> \<lparr>containerName = containerName update, products = found\<rparr>)\<rparr>
           in getProductsResponse pol cid True s1))"

text \<open>\<open>ContainerService.createContainer(owner, container)\<close>\<close>

definition createContainer ::
  "policy \<Rightarrow> nat \<Rightarrow> ContainerRequest \<Rightarrow> store \<Rightarrow> ContainerResponse option result" where
  "createContainer pol own container s =
     (let newId = nextContainerId s;
          s1 = s\<lparr>containerTable := (containerTable s)
                   (newId \<mapsto> \<lparr>owner = own, currentRevision = None, public = requestPublic container\<rparr>),
                 nextContainerId := newId + 1\<rparr>
      in updateContainer pol newId container s1)"

text \<open>
  The product ids of a draft as \<open>approveContainerUpdate\<close> builds them:
  \<open>rawContainerUpdate.products.map((product) => ({ revision: product.currentRevision,
  product: { id: product.id } }))\<close>. The relation is loaded by a join, which yields the
  products that exist.
\<close>

definition draftProductIds :: "UpdatedContainer \<Rightarrow> store \<Rightarrow> (nat \<times> nat option) list" where
  "draftProductIds raw s =
     concat (map (\<lambda>p. case productTable s p of
                          None \<Rightarrow> []
                        | Some base \<Rightarrow> [(p, currentRevision base)])
                 (products raw))"

text \<open>
  \<open>UpdatedProduct.findByIds(productIds)\<close>: the drafts whose product is named in the list, each
  row once.
\<close>

definition findUpdatedProducts :: "(nat \<times> nat option) list \<Rightarrow> store \<Rightarrow> nat list" where
  "findUpdatedProducts productIds s =
     filter (\<lambda>p. updatedProductTable s p \<noteq> None) (remdups (map fst productIds))"

text \<open>
  \<open>ProductRevision.findByIds(productIds)\<close>: the revisions stored under the listed
  (product id, revision) keys, each row once; an entry without a revision matches nothing.
\<close>

definition findProductRevisions :: "(nat \<times> nat option) list \<Rightarrow> store \<Rightarrow> (nat \<times> nat) list" where
  "findProductRevisions productIds s =
     filter (\<lambda>k. productRevisionTable s k \<noteq> None)
       (remdups (concat (map (\<lambda>(p, r). case r of None \<Rightarrow> [] | Some n \<Rightarrow> [(p, n)]) productIds)))"

text \<open>
  The earlier version approves every pending product and appends the approved revision to the
  id list:
  \<open>updatedProducts.map((p) => ProductService.approveProductUpdate(p.product.id)
  .then((up) => productIds.push({ revision: up.revision, product: { id: up.id } })))\<close>.
  The approvals touch different products, so they are run one after the other; reading
  \<open>up.revision\<close> of an \<open>undefined\<close> response is a \<open>TypeError\<close>, and a rejection ends the
  call.
\<close>

fun approveProducts ::
  "nat list \<Rightarrow> (nat \<times> nat option) list \<Rightarrow> store \<Rightarrow> (nat \<times> nat option) list result" where
  "approveProducts [] productIds s = (Inr productIds, s)"
| "approveProducts (p # ps) productIds s =
     (case approveProductUpdate p s of
        (Inl e, s1) \<Rightarrow> (Inl e, s1)
      | (Inr None, s1) \<Rightarrow> (Inl TypeError, s1)
      | (Inr (Some up), s1) \<Rightarrow>
          approveProducts ps (productIds @ [(productId up, revision up)]) s1)"

text \<open>
  Modelled from the spec: the \<open>ContainerRevision\<close> entity, which is missing from the sources.
  The spec makes every revision record immutable once it is created: an attempt to update
  one fails. So \<open>ContainerRevision.save(containerRevision)\<close> is taken to do what
  \<open>ProductRevision.save\<close> does: a new key (container id, revision) is inserted, an existing
  row with other values is refused with the error of \<open>denyUpdate\<close>, and an existing row with
  the same values needs no update.
\<close>

definition saveContainerRevision :: "nat \<times> nat \<Rightarrow> ContainerRevision \<Rightarrow> store \<Rightarrow> unit result" where
  "saveContainerRevision key row s =
     (case containerRevisionTable s key of
        None \<Rightarrow> (Inr (), s\<lparr>containerRevisionTable := (containerRevisionTable s)(key \<mapsto> row)\<rparr>)
      | Some old \<Rightarrow> if old = row then (Inr (), s) else (Inl denyUpdate, s))"

text \<open>
  The part both versions share: the revision is saved with the product revisions found, then
  the base with the incremented \<open>currentRevision\<close>, then the draft is deleted, and the new
  container is read back.
\<close>

definition createContainerRevision ::
  "policy \<Rightarrow> nat \<Rightarrow> Container \<Rightarrow> UpdatedContainer \<Rightarrow> (nat \<times> nat option) list \<Rightarrow> store
    \<Rightarrow> ContainerResponse option result" where
  "createContainerRevision pol cid base raw productIds s =
     (let productRevisions = findProductRevisions productIds s;
          rev = nextRevision (currentRevision base)
      in case saveContainerRevision (cid, rev)
                \<lparr>revisionName = containerName raw, revisionProducts = productRevisions\<rparr> s of
           (Inl e, s1) \<Rightarrow> (Inl e, s1)
         | (Inr u, s1) \<Rightarrow>
             (let s2 = s1\<lparr>containerTable :=
                         (containerTable s1)(cid \<mapsto> base\<lparr>currentRevision := Some rev\<rparr>)\<rparr>;
                  s3 = s2\<lparr>updatedContainerTable := (updatedContainerTable s2)(cid := None)\<rparr>
              in getProductsResponse pol cid False s3))"

text \<open>\<open>ContainerService.approveContainerUpdate(containerId)\<close>, in its two versions.\<close>

definition approveContainerUpdate :: "policy \<Rightarrow> nat \<Rightarrow> store \<Rightarrow> ContainerResponse option result" where
  "approveContainerUpdate pol cid s =
     (case containerTable s cid of
        None \<Rightarrow> (Inr None, s)
      | Some base \<Rightarrow>
          (case updatedContainerTable s cid of
             None \<Rightarrow> (Inr None, s)
           | Some rawContainerUpdate \<Rightarrow>
               (let productIds = draftProductIds rawContainerUpdate s;
                    updatedProducts = findUpdatedProducts productIds s
                in case pol of
                     Strict \<Rightarrow>
                       if updatedProducts \<noteq> [] then (Inl UnapprovedProductError, s)
                       else createContainerRevision pol cid base rawContainerUpdate productIds s
                   | Lax \<Rightarrow>
                       (case approveProducts updatedProducts productIds s of
                          (Inl e, s1) \<Rightarrow> (Inl e, s1)
                        | (Inr ids, s1) \<Rightarrow>
                            createContainerRevision pol cid base rawContainerUpdate ids s1))))"

text \<open>
  The public operations on products and containers, and a run of them. An operation reports
  the error it threw, or whether it returned a response (\<open>True\<close>) or \<open>undefined\<close> (\<open>False\<close>).
\<close>

datatype operation =
    CreateProduct nat ProductRequest
  | UpdateProduct nat ProductRequest
  | ApproveProduct nat
  | CreateContainer nat ContainerRequest
  | UpdateContainer nat ContainerRequest
  | ApproveContainer nat

definition answered :: "'a option result \<Rightarrow> bool result" where
  "answered r = (case r of (Inl e, s) \<Rightarrow> (Inl e, s) | (Inr x, s) \<Rightarrow> (Inr (x \<noteq> None), s))"

fun perform :: "policy \<Rightarrow> operation \<Rightarrow> store \<Rightarrow> bool result" where
  "perform pol (CreateProduct own product) s = answered (createProduct own product s)"
| "perform pol (UpdateProduct pid update) s = answered (updateProduct pid update s)"
| "perform pol (ApproveProduct pid) s = answered (approveProductUpdate pid s)"
| "perform pol (CreateContainer own container) s = answered (createContainer pol own container s)"
| "perform pol (UpdateContainer cid update) s = answered (updateContainer pol cid update s)"
| "perform pol (ApproveContainer cid) s = answered (approveContainerUpdate pol cid s)"

text \<open>
  The products that \<open>approveProducts\<close> approves: the calls of \<open>approveProductUpdate\<close> it
  makes that return a response.
\<close>

fun approvedProducts :: "nat list \<Rightarrow> store \<Rightarrow> nat list" where
  "approvedProducts [] s = []"
| "approvedProducts (p # ps) s =
     (case approveProductUpdate p s of
        (Inl e, s1) \<Rightarrow> []
      | (Inr None, s1) \<Rightarrow> []
      | (Inr (Some up), s1) \<Rightarrow> p # approvedProducts ps s1)"

text \<open>
  The approvals that return a response while operation \<open>x\<close> runs on \<open>s\<close>: the operation
  itself when it is an approval, and before it the product approvals that a container
  approval of the earlier version makes.
\<close>

definition approvalsIn :: "policy \<Rightarrow> operation \<Rightarrow> store \<Rightarrow> operation list" where
  "approvalsIn pol x s =
     (case x of
        ApproveProduct p \<Rightarrow> if fst (perform pol x s) = Inr True then [x] else []
      | ApproveContainer c \<Rightarrow>
          (case pol of
             Strict \<Rightarrow> []
           | Lax \<Rightarrow>
               (case containerTable s c of
                  None \<Rightarrow> []
                | Some base \<Rightarrow>
                    (case updatedContainerTable s c of
                       None \<Rightarrow> []
                     | Some raw \<Rightarrow>
                         map ApproveProduct
                           (approvedProducts (findUpdatedProducts (draftProductIds raw s) s) s))))
          @ (if fst (perform pol x s) = Inr True then [x] else [])
      | _ \<Rightarrow> [])"

text \<open>
  \<open>approvals pol a ops s\<close> runs \<open>ops\<close> from \<open>s\<close> and counts how often the approval \<open>a\<close>
  returned a response in it.
\<close>

fun approvals :: "policy \<Rightarrow> operation \<Rightarrow> operation list \<Rightarrow> store \<Rightarrow> nat \<times> store" where
  "approvals pol a [] s = (0, s)"
| "approvals pol a (x # xs) s =
     (case perform pol x s of
        (r, s1) \<Rightarrow>
          (case approvals pol a xs s1 of
             (n, s2) \<Rightarrow> (count_list (approvalsIn pol x s) a + n, s2)))"

text \<open>The store after a run.\<close>

definition run :: "policy \<Rightarrow> operation list \<Rightarrow> store \<Rightarrow> store" where
  "run pol ops s = fold (\<lambda>x t. snd (perform pol x t)) ops s"

section \<open>Transfers, balances and fines\<close>

text \<open>
  Users, transfers and the fine records. A relation is stored as the id of the row it points
  to (\<open>currentFines\<close> is the id of the user's active \<open>UserFineGroup\<close>); dates are
  timestamps. The description of a transfer is a text formatted from a balance and a date, or
  the constant \<open>'Waived fines'\<close>; it is kept as the data it is formatted from.
\<close>

record User =
  userId :: nat
  firstName :: string
  userType :: nat
  currentFines :: "nat option"

datatype description = FineForBalance int nat | WaivedFines

record Transfer =
  transferId :: nat
  fromId :: "nat option"
  toId :: "nat option"
  amount :: int
  description :: description

record FineHandoutEvent =
  eventId :: nat
  referenceDate :: nat
  createdBy :: nat
  createdAt :: nat

record UserFineGroup =
  groupId :: nat
  groupUserId :: nat
  waivedTransfer :: "nat option"

record Fine =
  fineId :: nat
  fineHandoutEvent :: nat
  userFineGroup :: nat
  fineAmount :: int
  previousFine :: "nat option"
  transfer :: nat

record UserGotFined =
  mailTo :: nat
  mailName :: string
  mailFine :: int
  mailBalance :: int
  mailReferenceDate :: nat
  totalFine :: int

record ledger =
  userTable :: "User list"
  transferTable :: "Transfer list"
  fineHandoutEventTable :: "FineHandoutEvent list"
  userFineGroupTable :: "UserFineGroup list"
  fineTable :: "Fine list"

text \<open>A call on the ledger returns its value or error and the ledger it leaves.\<close>

type_synonym 'a result_of_ledger = "(error + 'a) \<times> ledger"

text \<open>
  \<open>BalanceService\<close> is not part of the sources read here. Its computation of a user's
  balance, now (\<open>None\<close>) or on a date, from the ledger is a parameter of everything below.
\<close>

type_synonym balances = "ledger \<Rightarrow> nat option \<Rightarrow> nat \<Rightarrow> int"

text \<open>
  Modelled from the spec: \<open>BalanceService.getBalances\<close>, which is missing from the sources.
  It returns one record (id, amount) per user, restricted to the given ids and user types
  and to the users whose balance on the date is at most \<open>maxBalance\<close> (the debtor service's
  comment: "all users that had at most -5 euros balance").
\<close>

definition getBalances ::
  "balances \<Rightarrow> int option \<Rightarrow> nat option \<Rightarrow> nat list option \<Rightarrow> nat list option \<Rightarrow> ledger
    \<Rightarrow> (nat \<times> int) list" where
  "getBalances bal maxBalance date userTypes ids db =
     map (\<lambda>u. (userId u, bal db date (userId u)))
       (filter (\<lambda>u. (case ids of None \<Rightarrow> True | Some l \<Rightarrow> userId u \<in> set l)
                   \<and> (case userTypes of None \<Rightarrow> True | Some l \<Rightarrow> userType u \<in> set l)
                   \<and> (case maxBalance of None \<Rightarrow> True | Some m \<Rightarrow> bal db date (userId u) \<le> m))
          (userTable db))"

text \<open>\<open>User.findOne({ where: { id } })\<close> and \<open>user.save()\<close> of a loaded user.\<close>

definition findUser :: "nat \<Rightarrow> ledger \<Rightarrow> User option" where
  "findUser uid db = find (\<lambda>u. userId u = uid) (userTable db)"

definition saveUser :: "User \<Rightarrow> ledger \<Rightarrow> ledger" where
  "saveUser user db =
     db\<lparr>userTable := map (\<lambda>u. if userId u = userId user then user else u) (userTable db)\<rparr>"

text \<open>The id an auto-increment column gives the next row.\<close>

definition newId :: "nat list \<Rightarrow> nat" where
  "newId used = Suc (fold max used 0)"

text \<open>
  \<open>Transfer.validateDebtPaid\<close>, the \<open>@AfterInsert\<close> hook of a transfer; it runs on the ledger
  that already holds the transfer.
\<close>

definition validateDebtPaid :: "balances \<Rightarrow> Transfer \<Rightarrow> ledger \<Rightarrow> unit result_of_ledger"
  where
  "validateDebtPaid bal this db =
     (case toId this of
        None \<Rightarrow> (Inr (), db)
      | Some uid \<Rightarrow>
          (case findUser uid db of
             None \<Rightarrow> (Inl TypeError, db)
           | Some user \<Rightarrow>
               (case currentFines user of
                  None \<Rightarrow> (Inr (), db)
                | Some g \<Rightarrow>
                    if bal db None (userId user) \<ge> 0
                    then (Inr (), saveUser (user\<lparr>currentFines := None\<rparr>) db)
                    else (Inr (), db))))"

text \<open>
  Modelled from the spec: \<open>TransferService.createTransfer\<close>, which is missing from the
  sources. It persists one transfer record; a transfer with neither a source nor a
  destination fails with a validation error and persists nothing; after the insert the
  hook \<open>validateDebtPaid\<close> runs. \<open>rejected\<close> tells which inserts the database refuses.
\<close>

definition createTransfer ::
  "balances \<Rightarrow> (Transfer \<Rightarrow> bool) \<Rightarrow> int \<Rightarrow> nat option \<Rightarrow> nat option \<Rightarrow> description \<Rightarrow> ledger
    \<Rightarrow> Transfer result_of_ledger" where
  "createTransfer bal rejected amt frm to descr db =
     (if frm = None \<and> to = None then (Inl ValidationError, db)
      else
        (let t = \<lparr>transferId = newId (map transferId (transferTable db)), fromId = frm,
                  toId = to, amount = amt, description = descr\<rparr>
         in if rejected t then (Inl QueryFailed, db)
            else
              (case validateDebtPaid bal t (db\<lparr>transferTable := transferTable db @ [t]\<rparr>) of
                 (Inl e, db1) \<Rightarrow> (Inl e, db1)
               | (Inr u, db1) \<Rightarrow> (Inr t, db1))))"

text \<open>
  \<open>DebtorService.calculateFinesOnDate({ userTypes, userIds, referenceDate })\<close>; an undefined
  \<open>referenceDate\<close> makes the first query read the balances of now as well.
\<close>

definition calculateFinesOnDate ::
  "balances \<Rightarrow> nat list option \<Rightarrow> nat list option \<Rightarrow> nat option \<Rightarrow> ledger \<Rightarrow> (nat \<times> int) list"
  where
  "calculateFinesOnDate bal userTypes userIds refDate db =
     (let debtorsOnReferenceDate = getBalances bal (Some (- 500)) refDate userTypes userIds db;
          debtorsNow = getBalances bal (Some (- 500)) None userTypes userIds db;
          debtorsNowIds = map fst debtorsNow;
          userBalancesToFine = filter (\<lambda>b. fst b \<in> set debtorsNowIds) debtorsOnReferenceDate
      in map (\<lambda>u. (fst u, calculateFine (snd u))) userBalancesToFine)"

text \<open>
  \<open>getConnection().transaction(async (manager) => ...)\<close>: the writes of the callback reach
  the database when it returns and are undone when it throws. The repository configures one
  database driver, SQLite (\<open>TYPEORM_CONNECTION: sqlite\<close>), which works on a single connection:
  a write made on an entity itself (\<open>entity.save()\<close>) while the transaction is open runs on
  that connection and belongs to the transaction like the writes made through \<open>manager\<close>.
\<close>

definition transaction ::
  "(ledger \<Rightarrow> (error + 'a) \<times> ledger) \<Rightarrow> ledger \<Rightarrow> (error + 'a) \<times> ledger" where
  "transaction callback db =
     (case callback db of
        (Inl e, db1) \<Rightarrow> (Inl e, db)
      | (Inr x, db1) \<Rightarrow> (Inr x, db1))"

text \<open>
  \<open>FineHandoutEvent.find({ order: { id: 'desc' }, take: 1 })[0]\<close>: the event with the highest
  id, if there is one.
\<close>

definition lastEvent :: "ledger \<Rightarrow> FineHandoutEvent option" where
  "lastEvent db =
     fold (\<lambda>e acc. case acc of
                     None \<Rightarrow> Some e
                   | Some a \<Rightarrow> if eventId a < eventId e then Some e else Some a)
       (fineHandoutEventTable db) None"

text \<open>
  \<open>previousFineGroup?.fines.find((fine) => fine.userFineGroup.userId === b.id)\<close>, on the fines
  of the previous event as they were loaded before the transaction.
\<close>

definition findPreviousFine :: "FineHandoutEvent option \<Rightarrow> nat \<Rightarrow> ledger \<Rightarrow> nat option" where
  "findPreviousFine previousFineGroup uid db =
     (case previousFineGroup of
        None \<Rightarrow> None
      | Some e \<Rightarrow>
          map_option fineId
            (find (\<lambda>f. fineHandoutEvent f = eventId e
                       \<and> (\<exists>g \<in> set (userFineGroupTable db).
                            groupId g = userFineGroup f \<and> groupUserId g = uid))
               (fineTable db)))"

text \<open>
  The body of the loop of \<open>handOutFines\<close> for one balance record \<open>b\<close> runs from one \<open>await\<close> to
  the next. \<open>progress\<close> is where a body stands: before \<open>manager.findOne(User, ...)\<close>; with the
  user loaded and no active fines, before \<open>userFineGroup.save()\<close>; with the new group saved
  and a positive fine, before \<open>manager.save(user)\<close>; before \<open>TransferService.createTransfer\<close>,
  with the id of the group and the fines loaded with it; and returned, with the fine, which
  is saved after the loop and has no id yet.
\<close>

datatype progress =
    Finding
  | Grouping User
  | Marking User nat
  | Debiting User nat "Fine list"
  | Fined Fine

text \<open>
  One step of a body: the database call it waits for and the code up to its next \<open>await\<close>.
  Reading \<open>user.currentFines\<close> of a user that was not found is a \<open>TypeError\<close>. The state is
  the ledger as the connection sees it and the array \<open>emails\<close>.
\<close>

definition advance ::
  "balances \<Rightarrow> (Transfer \<Rightarrow> bool) \<Rightarrow> nat \<Rightarrow> (nat \<Rightarrow> nat option) \<Rightarrow> nat \<Rightarrow> nat \<times> int \<Rightarrow> progress
    \<Rightarrow> ledger \<times> UserGotFined list \<Rightarrow> (error + progress) \<times> ledger \<times> UserGotFined list" where
  "advance bal rejected date previous event b p st =
     (let db = fst st; emails = snd st; amt = calculateFine (snd b) in
      case p of
        Finding \<Rightarrow>
          (case findUser (fst b) db of
             None \<Rightarrow> (Inl TypeError, st)
           | Some user \<Rightarrow>
               (case currentFines user of
                  None \<Rightarrow> (Inr (Grouping user), st)
                | Some g \<Rightarrow>
                    (Inr (Debiting user g (filter (\<lambda>f. userFineGroup f = g) (fineTable db))), st)))
      | Grouping user \<Rightarrow>
          (let grp = newId (map groupId (userFineGroupTable db));
               db1 = db\<lparr>userFineGroupTable := userFineGroupTable db
                          @ [\<lparr>groupId = grp, groupUserId = fst b, waivedTransfer = None\<rparr>]\<rparr>
           in (Inr (if amt > 0 then Marking user grp else Debiting user grp []), (db1, emails)))
      | Marking user grp \<Rightarrow>
          (Inr (Debiting user grp []), (saveUser (user\<lparr>currentFines := Some grp\<rparr>) db, emails))
      | Debiting user grp fines \<Rightarrow>
          (case createTransfer bal rejected amt (Some (userId user)) None
                  (FineForBalance (snd b) date) db of
             (Inl e, db1) \<Rightarrow> (Inl e, (db1, emails))
           | (Inr t, db1) \<Rightarrow>
               (Inr (Fined \<lparr>fineId = 0, fineHandoutEvent = event, userFineGroup = grp,
                             fineAmount = calculateFine (snd b), previousFine = previous (fst b),
                             transfer = transferId t\<rparr>),
                (db1, emails @ [\<lparr>mailTo = userId user, mailName = firstName user, mailFine = amt,
                                   mailBalance = snd b, mailReferenceDate = date,
                                   totalFine = sum_list (map fineAmount fines) + amt\<rparr>])))
      | Fined fine \<Rightarrow> (Inr (Fined fine), st))"

text \<open>
  Bodies that run side by side. Each \<open>await\<close> of a body gives way to the others, and the
  order in which they resume is decided by the event loop and the database driver, so it
  is a parameter: \<open>schedule\<close> lists the indices of the bodies in the order in which they take
  their steps. The first step that throws rejects the whole, as \<open>Promise.all\<close> does; the
  transaction is then rolled back, and what the bodies still under way would do on its
  released connection is outside the model.
\<close>

fun interleave ::
  "(nat \<Rightarrow> 'p \<Rightarrow> 's \<Rightarrow> (error + 'p) \<times> 's) \<Rightarrow> nat list \<Rightarrow> 'p list \<Rightarrow> 's \<Rightarrow> (error + 'p list) \<times> 's"
  where
  "interleave step [] ps st = (Inr ps, st)"
| "interleave step (i # schedule) ps st =
     (if i < length ps
      then (case step i (ps ! i) st of
              (Inl e, st1) \<Rightarrow> (Inl e, st1)
            | (Inr p, st1) \<Rightarrow> interleave step schedule (ps[i := p]) st1)
      else interleave step schedule ps st)"

text \<open>What a body has returned.\<close>

definition returned :: "progress \<Rightarrow> Fine list" where
  "returned p = (case p of Fined fine \<Rightarrow> [fine] | _ \<Rightarrow> [])"

text \<open>
  \<open>Promise.all(balances.records.map(async (b) => ...))\<close>: every body is started, they run
  as the schedule says, and the fines they return come in the order of the records. A body
  takes at most four steps; those that the given schedule leaves unfinished are run in
  turns, so that every list is a schedule, and a body named after it has returned does
  nothing.
\<close>

definition fineUsers ::
  "balances \<Rightarrow> (Transfer \<Rightarrow> bool) \<Rightarrow> nat \<Rightarrow> (nat \<Rightarrow> nat option) \<Rightarrow> nat \<Rightarrow> nat list
    \<Rightarrow> (nat \<times> int) list \<Rightarrow> ledger \<times> UserGotFined list
    \<Rightarrow> (error + Fine list) \<times> ledger \<times> UserGotFined list" where
  "fineUsers bal rejected date previous event schedule bs st =
     (case interleave (\<lambda>i. advance bal rejected date previous event (bs ! i))
             (schedule @ concat (replicate 4 [0..<length bs]))
             (replicate (length bs) Finding) st of
        (Inl e, st1) \<Rightarrow> (Inl e, st1)
      | (Inr ps, st1) \<Rightarrow> (Inr (concat (map returned ps)), st1))"

text \<open>\<open>manager.save(fines)\<close>: the fines get their ids in order.\<close>

fun saveFines :: "Fine list \<Rightarrow> ledger \<Rightarrow> Fine list \<times> ledger" where
  "saveFines [] db = ([], db)"
| "saveFines (f # fs) db =
     (let row = f\<lparr>fineId := newId (map fineId (fineTable db))\<rparr>
      in case saveFines fs (db\<lparr>fineTable := fineTable db @ [row]\<rparr>) of
           (rows, db1) \<Rightarrow> (row # rows, db1))"

text \<open>
  \<open>DebtorService.handOutFines({ referenceDate, userIds }, createdBy)\<close>. The result is the
  response (the event and its fines) or the error, the ledger afterwards, and the mails
  handed to the mailer, which happens after the transaction has returned.
\<close>

definition handOutFines ::
  "balances \<Rightarrow> (Transfer \<Rightarrow> bool) \<Rightarrow> nat list \<Rightarrow> nat \<Rightarrow> nat option \<Rightarrow> nat list \<Rightarrow> nat \<Rightarrow> ledger
    \<Rightarrow> (FineHandoutEvent \<times> Fine list) result_of_ledger \<times> UserGotFined list" where
  "handOutFines bal rejected schedule now refDate userIds creator db =
     (let previousFineGroup = lastEvent db;
          date = (case refDate of
                    Some d \<Rightarrow> d
                  | None \<Rightarrow> (case previousFineGroup of Some e \<Rightarrow> createdAt e | None \<Rightarrow> now));
          balances = getBalances bal None (Some date) None (Some userIds) db
      in case transaction
                (\<lambda>db0.
                   (let fineHandoutEvent =
                          \<lparr>eventId = newId (map eventId (fineHandoutEventTable db0)),
                           referenceDate = date, createdBy = creator, createdAt = now\<rparr>;
                        db1 = db0\<lparr>fineHandoutEventTable :=
                                    fineHandoutEventTable db0 @ [fineHandoutEvent]\<rparr>
                    in case fineUsers bal rejected date
                              (\<lambda>uid. findPreviousFine previousFineGroup uid db)
                              (eventId fineHandoutEvent) schedule balances (db1, []) of
                         (Inl e, st) \<Rightarrow> (Inl e, fst st)
                       | (Inr fines, st) \<Rightarrow>
                           (case saveFines fines (fst st) of
                              (fines1, db2) \<Rightarrow>
                                (Inr (fines1, fineHandoutEvent, snd st), db2))))
                db of
           (Inl e, db') \<Rightarrow> ((Inl e, db'), [])
         | (Inr (fines1, fineHandoutEvent1, emails1), db') \<Rightarrow>
             ((Inr (fineHandoutEvent1, fines1), db'), emails1))"

text \<open>
  \<open>DebtorService.waiveFines(userId)\<close>, outside any transaction. The group's fines are those
  that point to it; \<open>userFineGroup.save()\<close> updates the group's row and \<open>user.save()\<close> writes
  the user as loaded at the start, with \<open>currentFines\<close> set to \<open>null\<close>.
\<close>

definition waiveFines ::
  "balances \<Rightarrow> (Transfer \<Rightarrow> bool) \<Rightarrow> nat \<Rightarrow> ledger \<Rightarrow> unit result_of_ledger" where
  "waiveFines bal rejected uid db =
     (case findUser uid db of
        None \<Rightarrow> (Inl (UserDoesNotExist uid), db)
      | Some user \<Rightarrow>
          (case currentFines user of
             None \<Rightarrow> (Inr (), db)
           | Some g \<Rightarrow>
               (let amt = sum_list (map fineAmount
                            (filter (\<lambda>f. userFineGroup f = g) (fineTable db)))
                in case createTransfer bal rejected amt None (Some (userId user)) WaivedFines db of
                     (Inl e, db1) \<Rightarrow> (Inl e, db1)
                   | (Inr t, db1) \<Rightarrow>
                       (let db2 = db1\<lparr>userFineGroupTable :=
                                    map (\<lambda>r. if groupId r = g
                                              then r\<lparr>waivedTransfer := Some (transferId t)\<rparr>
                                              else r)
                                      (userFineGroupTable db1)\<rparr>
                        in (Inr (), saveUser (user\<lparr>currentFines := None\<rparr>) db2)))))"

section \<open>Invariants and closed forms used in the proofs\<close>

text \<open>
  The store an approval of product \<open>p\<close> with base \<open>b\<close> and draft \<open>d\<close> leaves, and the store an
  approval of container \<open>c\<close> leaves when \<open>ids\<close> is the id list the revisions are looked up
  with.
\<close>

definition approvedProduct :: "nat \<Rightarrow> Product \<Rightarrow> ProductRequest \<Rightarrow> store \<Rightarrow> store" where
  "approvedProduct p b d s =
     s\<lparr>productRevisionTable := (productRevisionTable s)((p, nextRevision (currentRevision b)) \<mapsto> d),
       productTable := (productTable s)(p \<mapsto> b\<lparr>currentRevision := Some (nextRevision (currentRevision b))\<rparr>),
       updatedProductTable := (updatedProductTable s)(p := None)\<rparr>"

definition approvedContainer ::
  "nat \<Rightarrow> Container \<Rightarrow> UpdatedContainer \<Rightarrow> (nat \<times> nat option) list \<Rightarrow> store \<Rightarrow> store" where
  "approvedContainer c b raw ids s =
     s\<lparr>containerRevisionTable := (containerRevisionTable s)
          ((c, nextRevision (currentRevision b)) \<mapsto>
             \<lparr>revisionName = containerName raw, revisionProducts = findProductRevisions ids s\<rparr>),
       containerTable := (containerTable s)
          (c \<mapsto> b\<lparr>currentRevision := Some (nextRevision (currentRevision b))\<rparr>),
       updatedContainerTable := (updatedContainerTable s)(c := None)\<rparr>"

text \<open>The response of an approval of container \<open>c\<close> with base \<open>b\<close> and draft \<open>raw\<close>.\<close>

definition approvedResponse :: "policy \<Rightarrow> nat \<Rightarrow> Container \<Rightarrow> UpdatedContainer \<Rightarrow> ContainerResponse"
  where
  "approvedResponse pol c b raw =
     \<lparr>containerId = (case pol of Strict \<Rightarrow> Some c | Lax \<Rightarrow> Some (if public b then 1 else 0)),
      containerRevision = Some (nextRevision (currentRevision b)),
      responseName = Some (containerName raw)\<rparr>"

text \<open>
  Product \<open>p\<close> (container \<open>c\<close>) was created by the service and has been approved \<open>n\<close>
  times: its \<open>currentRevision\<close> is \<open>n\<close>, absent for \<open>n = 0\<close>, and its revisions are those
  numbered 1 to \<open>n\<close>.
\<close>

definition productAt :: "nat \<Rightarrow> nat \<Rightarrow> store \<Rightarrow> bool" where
  "productAt p n s \<longleftrightarrow>
     p < nextProductId s
     \<and> (\<exists>b. productTable s p = Some b \<and> currentRevision b = (if n = 0 then None else Some n))
     \<and> (\<forall>r. productRevisionTable s (p, r) \<noteq> None \<longleftrightarrow> 1 \<le> r \<and> r \<le> n)"

definition containerAt :: "nat \<Rightarrow> nat \<Rightarrow> store \<Rightarrow> bool" where
  "containerAt c n s \<longleftrightarrow>
     c < nextContainerId s
     \<and> (\<exists>b. containerTable s c = Some b \<and> currentRevision b = (if n = 0 then None else Some n))
     \<and> (\<forall>r. containerRevisionTable s (c, r) \<noteq> None \<longleftrightarrow> 1 \<le> r \<and> r \<le> n)"

text \<open>
  Every stored product revision belongs to a product whose \<open>currentRevision\<close> is at least
  its number, and no product has an id the counter has not handed out yet.
\<close>

definition consistent :: "store \<Rightarrow> bool" where
  "consistent s \<longleftrightarrow>
     (\<forall>p r. productRevisionTable s (p, r) \<noteq> None \<longrightarrow>
        (\<exists>b c. productTable s p = Some b \<and> currentRevision b = Some c \<and> 1 \<le> r \<and> r \<le> c))
     \<and> (\<forall>p. nextProductId s \<le> p \<longrightarrow> productTable s p = None)"

text \<open>The same for the stored container revisions and the containers.\<close>

definition containersConsistent :: "store \<Rightarrow> bool" where
  "containersConsistent s \<longleftrightarrow>
     (\<forall>c r. containerRevisionTable s (c, r) \<noteq> None \<longrightarrow>
        (\<exists>b k. containerTable s c = Some b \<and> currentRevision b = Some k \<and> 1 \<le> r \<and> r \<le> k))
     \<and> (\<forall>c. nextContainerId s \<le> c \<longrightarrow> containerTable s c = None)"

text \<open>What a call leaves as it was: the container tables, one product, the product tables.\<close>

definition sameContainers :: "store \<Rightarrow> store \<Rightarrow> bool" where
  "sameContainers s s' \<longleftrightarrow>
     containerTable s' = containerTable s \<and> nextContainerId s' = nextContainerId s
     \<and> updatedContainerTable s' = updatedContainerTable s
     \<and> containerRevisionTable s' = containerRevisionTable s"

definition sameProduct :: "nat \<Rightarrow> store \<Rightarrow> store \<Rightarrow> bool" where
  "sameProduct q s s' \<longleftrightarrow>
     productTable s' q = productTable s q \<and> updatedProductTable s' q = updatedProductTable s q
     \<and> (\<forall>r. productRevisionTable s' (q, r) = productRevisionTable s (q, r))"

definition sameProducts :: "store \<Rightarrow> store \<Rightarrow> bool" where
  "sameProducts s s' \<longleftrightarrow>
     productTable s' = productTable s \<and> nextProductId s' = nextProductId s
     \<and> updatedProductTable s' = updatedProductTable s
     \<and> productRevisionTable s' = productRevisionTable s"

text \<open>
  The steps of \<open>handOutFines\<close> named: the reference date it uses, the event it saves and the
  transfer that debits a fine.
\<close>

definition handoutDate :: "nat \<Rightarrow> nat option \<Rightarrow> ledger \<Rightarrow> nat" where
  "handoutDate now refDate db =
     (case refDate of
        Some d \<Rightarrow> d
      | None \<Rightarrow> (case lastEvent db of Some e \<Rightarrow> createdAt e | None \<Rightarrow> now))"

definition newEvent :: "nat \<Rightarrow> nat option \<Rightarrow> nat \<Rightarrow> ledger \<Rightarrow> FineHandoutEvent" where
  "newEvent now refDate creator db =
     \<lparr>eventId = newId (map eventId (fineHandoutEventTable db)),
      referenceDate = handoutDate now refDate db, createdBy = creator, createdAt = now\<rparr>"

definition debit :: "int \<Rightarrow> nat \<Rightarrow> description \<Rightarrow> ledger \<Rightarrow> Transfer" where
  "debit amt uid descr db =
     \<lparr>transferId = newId (map transferId (transferTable db)), fromId = Some uid, toId = None,
      amount = amt, description = descr\<rparr>"

text \<open>The steps a body has still to take, and the records whose bodies have returned.\<close>

definition stepsLeft :: "progress \<Rightarrow> nat" where
  "stepsLeft p =
     (case p of
        Finding \<Rightarrow> 4
      | Grouping user \<Rightarrow> 3
      | Marking user grp \<Rightarrow> 2
      | Debiting user grp fines \<Rightarrow> 1
      | Fined fine \<Rightarrow> 0)"

definition finished :: "progress list \<Rightarrow> (nat \<times> int) list \<Rightarrow> (nat \<times> int) list" where
  "finished ps bs = map snd (filter (\<lambda>x. stepsLeft (fst x) = 0) (zip ps bs))"


text \<open>
  The fine of balance record \<open>b\<close> goes to group \<open>grp\<close>: the active group of the user as the
  call found them (\<open>user0\<close>), or a group among the new ones \<open>gs\<close>, which is the user's
  \<open>currentFines\<close> exactly when the fine is positive.
\<close>

definition linked :: "nat \<times> int \<Rightarrow> User \<Rightarrow> nat \<Rightarrow> UserFineGroup list \<Rightarrow> ledger \<Rightarrow> bool" where
  "linked b user0 grp gs db \<longleftrightarrow>
     (case currentFines user0 of
        Some g \<Rightarrow> grp = g \<and> findUser (fst b) db = Some user0
      | None \<Rightarrow>
          (\<exists>row \<in> set gs. groupId row = grp \<and> groupUserId row = fst b)
          \<and> findUser (fst b) db
              = Some (user0\<lparr>currentFines :=
                        (if 0 < calculateFine (snd b) then Some grp else None)\<rparr>))"

text \<open>
  What holds of the body of record \<open>b\<close> where it stands, with the transfers \<open>ts\<close> and the groups
  \<open>gs\<close> added so far and the ledger \<open>db\<close> of the connection.
\<close>

definition bodyOk ::
  "nat \<Rightarrow> nat \<times> int \<Rightarrow> User \<Rightarrow> progress \<Rightarrow> Transfer list \<Rightarrow> UserFineGroup list \<Rightarrow> ledger
    \<Rightarrow> bool" where
  "bodyOk event b user0 p ts gs db \<longleftrightarrow>
     (case p of
        Finding \<Rightarrow> findUser (fst b) db = Some user0
      | Grouping user \<Rightarrow>
          user = user0 \<and> currentFines user0 = None \<and> findUser (fst b) db = Some user0
      | Marking user grp \<Rightarrow>
          user = user0 \<and> currentFines user0 = None \<and> 0 < calculateFine (snd b)
          \<and> findUser (fst b) db = Some user0
          \<and> (\<exists>row \<in> set gs. groupId row = grp \<and> groupUserId row = fst b)
      | Debiting user grp fines \<Rightarrow> user = user0 \<and> linked b user0 grp gs db
      | Fined fine \<Rightarrow>
          fineAmount fine = calculateFine (snd b) \<and> fineHandoutEvent fine = event
          \<and> (\<exists>t \<in> set ts. transfer fine = transferId t \<and> fromId t = Some (fst b)
                 \<and> toId t = None \<and> amount t = calculateFine (snd b))
          \<and> linked b user0 (userFineGroup fine) gs db)"

text \<open>
  The state of the loop, for the records \<open>bs\<close> and the ledger \<open>db0\<close> in which the bodies
  started: only transfers and groups have been added, each body is where \<open>bodyOk\<close> says, the
  new groups belong to listed users that had no active group, and the new transfers and
  the mails are those of the bodies that have returned.
\<close>

definition handoutInv ::
  "nat \<Rightarrow> (nat \<times> int) list \<Rightarrow> ledger \<Rightarrow> progress list \<Rightarrow> ledger \<times> UserGotFined list
    \<Rightarrow> Transfer list \<Rightarrow> UserFineGroup list \<Rightarrow> bool" where
  "handoutInv event bs db0 ps st ts gs \<longleftrightarrow>
     length ps = length bs
     \<and> transferTable (fst st) = transferTable db0 @ ts
     \<and> userFineGroupTable (fst st) = userFineGroupTable db0 @ gs
     \<and> fineTable (fst st) = fineTable db0
     \<and> fineHandoutEventTable (fst st) = fineHandoutEventTable db0
     \<and> (\<forall>v. v \<notin> fst ` set bs \<longrightarrow> findUser v (fst st) = findUser v db0)
     \<and> (\<forall>i < length bs. \<forall>user0. findUser (fst (bs ! i)) db0 = Some user0 \<longrightarrow>
           bodyOk event (bs ! i) user0 (ps ! i) ts gs (fst st))
     \<and> (\<forall>row \<in> set gs. groupUserId row \<in> fst ` set bs
           \<and> (\<exists>user0. findUser (groupUserId row) db0 = Some user0 \<and> currentFines user0 = None))
     \<and> mset (map (\<lambda>t. (fromId t, toId t, amount t)) ts)
         = mset (map (\<lambda>b. (Some (fst b), None :: nat option, calculateFine (snd b)))
                   (finished ps bs))
     \<and> mset (map mailTo (snd st)) = mset (map fst (finished ps bs))"

section \<open>Example states\<close>

text \<open>A store with an approved product and an approved container, neither with a draft.\<close>

definition approvedStore :: store where
  "approvedStore =
     emptyStore\<lparr>productTable := [1 \<mapsto> \<lparr>owner = 7, currentRevision = Some 2\<rparr>],
                containerTable := [1 \<mapsto> \<lparr>owner = 7, currentRevision = Some 1, public = True\<rparr>]\<rparr>"

text \<open>
  A ledger in which user 1 has an active fine group with fines of 100 and 200, each debited by
  a transfer, and user 2 has no fines.
\<close>

definition finedLedger :: ledger where
  "finedLedger =
     \<lparr>userTable = [\<lparr>userId = 1, firstName = ''Ada'', userType = 1, currentFines = Some 1\<rparr>,
                   \<lparr>userId = 2, firstName = ''Bob'', userType = 1, currentFines = None\<rparr>],
      transferTable =
        [\<lparr>transferId = 1, fromId = Some 1, toId = None, amount = 100,
          description = FineForBalance (- 700) 10\<rparr>,
         \<lparr>transferId = 2, fromId = Some 1, toId = None, amount = 200,
          description = FineForBalance (- 1200) 20\<rparr>],
      fineHandoutEventTable =
        [\<lparr>eventId = 1, referenceDate = 10, createdBy = 9, createdAt = 10\<rparr>,
         \<lparr>eventId = 2, referenceDate = 20, createdBy = 9, createdAt = 20\<rparr>],
      userFineGroupTable = [\<lparr>groupId = 1, groupUserId = 1, waivedTransfer = None\<rparr>],
      fineTable =
        [\<lparr>fineId = 1, fineHandoutEvent = 1, userFineGroup = 1, fineAmount = 100,
          previousFine = None, transfer = 1\<rparr>,
         \<lparr>fineId = 2, fineHandoutEvent = 2, userFineGroup = 1, fineAmount = 200,
          previousFine = Some 1, transfer = 2\<rparr>]\<rparr>"

text \<open>
  Modelled from the spec: a balance computation to run the examples with, \<open>getBalance\<close> on a
  ledger without purchases: an opening balance plus the transfers to the user minus the
  transfers from the user.
\<close>

definition transferBalance :: "(nat \<Rightarrow> int) \<Rightarrow> balances" where
  "transferBalance opening db date uid =
     opening uid
     + sum_list (map amount (filter (\<lambda>t. toId t = Some uid) (transferTable db)))
     - sum_list (map amount (filter (\<lambda>t. fromId t = Some uid) (transferTable db)))"

text \<open>A deposit of 2000 for user 1, and the ledger after its insert.\<close>

definition deposit :: Transfer where
  "deposit = \<lparr>transferId = 3, fromId = None, toId = Some 1, amount = 2000,
              description = WaivedFines\<rparr>"

definition depositedLedger :: ledger where
  "depositedLedger = finedLedger\<lparr>transferTable := transferTable finedLedger @ [deposit]\<rparr>"

text \<open>
  Balances for the examples that depend on the date only: on date 10 both users are debtors,
  on date 5 neither is, and now only user 1 is.
\<close>

definition datedBalance :: balances where
  "datedBalance db date uid =
     (if date = Some 10 then (if uid = 1 then - 1000 else - 700)
      else if date = Some 5 then - 100
      else (if uid = 1 then - 600 else 0))"

text \<open>The ledger of the fined user 1 after the fines have been waived.\<close>

definition waivedLedger :: ledger where
  "waivedLedger =
     finedLedger\<lparr>userTable :=
                   [\<lparr>userId = 1, firstName = ''Ada'', userType = 1, currentFines = None\<rparr>,
                    \<lparr>userId = 2, firstName = ''Bob'', userType = 1, currentFines = None\<rparr>],
                 transferTable := transferTable finedLedger
                   @ [\<lparr>transferId = 3, fromId = None, toId = Some 1, amount = 300,
                        description = WaivedFines\<rparr>],
                 userFineGroupTable := [\<lparr>groupId = 1, groupUserId = 1, waivedTransfer = Some 3\<rparr>]\<rparr>"

text \<open>Two product requests.\<close>

definition cola :: ProductRequest where
  "cola = \<lparr>name = ''cola'', price = 150, category = 1, alcoholPercentage = 0\<rparr>"

definition beer :: ProductRequest where
  "beer = \<lparr>name = ''beer'', price = 200, category = 2, alcoholPercentage = 500\<rparr>"

text \<open>
  The store after a product and a container listing it have been created: both have a draft
  and no revision. \<open>setupRun\<close> is the run of operations that builds it from the empty store.
\<close>

definition draftedStore :: store where
  "draftedStore =
     \<lparr>productTable = [1 \<mapsto> \<lparr>owner = 7, currentRevision = None\<rparr>], nextProductId = 2,
      updatedProductTable = [1 \<mapsto> cola], productRevisionTable = Map.empty,
      containerTable = [1 \<mapsto> \<lparr>owner = 7, currentRevision = None, public = True\<rparr>],
      nextContainerId = 2,
      updatedContainerTable = [1 \<mapsto> \<lparr>containerName = ''fridge'', products = [1]\<rparr>],
      containerRevisionTable = Map.empty\<rparr>"

definition setupRun :: "operation list" where
  "setupRun =
     [CreateProduct 7 cola,
      CreateContainer 7 \<lparr>containerName = ''fridge'', products = [1], requestPublic = True\<rparr>]"

text \<open>Runs on that store; the second approval of the product finds no draft.\<close>

definition productRun :: "operation list" where
  "productRun = [ApproveProduct 1, ApproveProduct 1, UpdateProduct 1 beer, ApproveProduct 1]"

definition containerRun :: "operation list" where
  "containerRun =
     [ApproveContainer 1, ApproveProduct 1, ApproveContainer 1,
      UpdateContainer 1 \<lparr>containerName = ''bar'', products = [1], requestPublic = True\<rparr>,
      ApproveContainer 1]"

text \<open>
  A run in which both approvals of the product are made by container approvals of the
  earlier version; the last approval of the product finds no draft.
\<close>

definition cascadeRun :: "operation list" where
  "cascadeRun =
     [ApproveContainer 1, UpdateProduct 1 beer,
      UpdateContainer 1 \<lparr>containerName = ''bar'', products = [1], requestPublic = True\<rparr>,
      ApproveContainer 1, ApproveProduct 1]"

text \<open>The store after the product of \<open>draftedStore\<close> has been approved.\<close>

definition stockedStore :: store where
  "stockedStore =
     draftedStore\<lparr>productRevisionTable := [(1, 1) \<mapsto> cola],
                  productTable := [1 \<mapsto> \<lparr>owner = 7, currentRevision = Some 1\<rparr>],
                  updatedProductTable := Map.empty\<rparr>"

text \<open>
  The store after the container of \<open>stockedStore\<close> has been approved and has got a new draft.
\<close>

definition pinnedStore :: store where
  "pinnedStore =
     stockedStore\<lparr>containerRevisionTable :=
                    [(1, 1) \<mapsto> \<lparr>revisionName = ''fridge'', revisionProducts = [(1, 1)]\<rparr>],
                  containerTable := [1 \<mapsto> \<lparr>owner = 7, currentRevision = Some 1, public = True\<rparr>],
                  updatedContainerTable := [1 \<mapsto> \<lparr>containerName = ''bar'', products = [1]\<rparr>]\<rparr>"

text \<open>A store in which product 1 has revision 1 and a new draft.\<close>

definition revisedStore :: store where
  "revisedStore =
     emptyStore\<lparr>productTable := [1 \<mapsto> \<lparr>owner = 7, currentRevision = Some 1\<rparr>],
                nextProductId := 2,
                updatedProductTable := [1 \<mapsto> beer],
                productRevisionTable := [(1, 1) \<mapsto> cola]\<rparr>"


text \<open>The inserts a database rejects: none, or the transfers from user 2.\<close>

definition rejectsNothing :: "Transfer \<Rightarrow> bool" where
  "rejectsNothing t = False"

definition rejectsUser2 :: "Transfer \<Rightarrow> bool" where
  "rejectsUser2 t = (fromId t = Some 2)"

section \<open>Properties\<close>

subsection \<open>The fine bands\<close>

lemma floor_quotient_500: "\<lfloor>- real_of_int b / 500\<rfloor> = (- b) div 500"
proof -
  have "- real_of_int b / 500 = real_of_int (- b) / real_of_int 500"
    by simp
  then show ?thesis
    by (simp only: floor_divide_of_int_eq)
qed

text \<open>
  C1. For every balance \<open>b\<close> the fine is \<open>clamp(floor(-b / 500) * 100, 0, 500)\<close>; the balances
  -499, -500, -999 and -1000 give 0, 100, 100 and 200, and every balance of -2500 or lower
  gives exactly 500.
\<close>

theorem calculateFine_banding:
  "calculateFine b = specifiedFine b
   \<and> calculateFine (- 499) = 0
   \<and> calculateFine (- 500) = 100
   \<and> calculateFine (- 999) = 100
   \<and> calculateFine (- 1000) = 200
   \<and> (b \<le> - 2500 \<longrightarrow> calculateFine b = 500)"
proof -
  have eq: "calculateFine b = specifiedFine b"
    unfolding calculateFine_def specifiedFine_def clamp_def floor_quotient_500
    by (simp add: max_def min_def)
  have vals: "calculateFine (- 499) = 0" "calculateFine (- 500) = 100"
    "calculateFine (- 999) = 100" "calculateFine (- 1000) = 200"
    by (simp_all add: calculateFine_def)
  have cap: "calculateFine b = 500" if "b \<le> - 2500"
  proof -
    from that have "5 \<le> (- b) div 500" by linarith
    then show ?thesis
      by (simp add: calculateFine_def max_def min_def)
  qed
  from eq vals cap show ?thesis by blast
qed

theorem calculateFine_banding_witness:
  "(- 3000 :: int) \<le> - 2500 \<and> calculateFine (- 3000) = 500 \<and> specifiedFine (- 3000) = 500"
  using calculateFine_banding [of "- 3000"] by simp

subsection \<open>Approval without a base or without a draft\<close>

text \<open>
  C5. Approving a product or a container whose base row does not exist, or which has no
  pending draft, ends with the not-found outcome of the service, the return value
  \<open>undefined\<close>, and changes nothing: the store, with \<open>currentRevision\<close> and the revision
  tables, is the one before the call. This holds for both versions of the container service.
\<close>

theorem approve_not_found:
  "(productTable s pid = None \<or> updatedProductTable s pid = None
      \<longrightarrow> approveProductUpdate pid s = (Inr None, s))
   \<and> (containerTable s cid = None \<or> updatedContainerTable s cid = None
      \<longrightarrow> approveContainerUpdate pol cid s = (Inr None, s))"
  by (auto simp: approveProductUpdate_def approveContainerUpdate_def split: option.splits)

theorem approve_not_found_witness:
  "updatedProductTable approvedStore 1 = None
   \<and> productTable approvedStore 5 = None
   \<and> approveProductUpdate 1 approvedStore = (Inr None, approvedStore)
   \<and> approveProductUpdate 5 approvedStore = (Inr None, approvedStore)
   \<and> approveContainerUpdate Strict 1 approvedStore = (Inr None, approvedStore)
   \<and> approveContainerUpdate Lax 5 approvedStore = (Inr None, approvedStore)"
  using approve_not_found [of approvedStore 1 1 Strict] approve_not_found [of approvedStore 5 5 Lax]
  by (simp add: approvedStore_def emptyStore_def)

subsection \<open>The hook after the insert of a transfer\<close>

lemma find_userId:
  "find (\<lambda>u. userId u = uid) xs = Some user \<Longrightarrow> userId user = uid \<and> user \<in> set xs"
  by (induction xs) (auto split: if_splits)

lemma findUser_userId: "findUser uid db = Some user \<Longrightarrow> userId user = uid"
  unfolding findUser_def by (drule find_userId) simp

lemma find_replaced:
  "find (\<lambda>u. userId u = uid) xs = Some user \<Longrightarrow> userId v = uid \<Longrightarrow>
   find (\<lambda>u. userId u = uid) (map (\<lambda>u. if userId u = uid then v else u) xs) = Some v"
  by (induction xs) (auto split: if_splits)

lemma findUser_saveUser:
  "findUser uid db = Some user \<Longrightarrow> userId v = uid \<Longrightarrow> findUser uid (saveUser v db) = Some v"
  unfolding findUser_def saveUser_def by (simp add: find_replaced)

text \<open>
  C8. After the insert of a transfer \<open>t\<close>: without a destination nothing changes; with a
  destination account that has no active fines, or whose recomputed balance is negative,
  nothing changes; with a destination account that has active fines and a recomputed
  balance of at least 0, the account's \<open>currentFines\<close> marker is cleared and the fines, the
  fine groups and the transfers stay as they are.
\<close>

theorem validateDebtPaid_effect:
  "(toId t = None \<longrightarrow> validateDebtPaid bal t db = (Inr (), db))
   \<and> (toId t = Some uid \<and> findUser uid db = Some user \<and> currentFines user = None
        \<longrightarrow> validateDebtPaid bal t db = (Inr (), db))
   \<and> (toId t = Some uid \<and> findUser uid db = Some user \<and> bal db None uid < 0
        \<longrightarrow> validateDebtPaid bal t db = (Inr (), db))
   \<and> (toId t = Some uid \<and> findUser uid db = Some user \<and> currentFines user \<noteq> None
        \<and> bal db None uid \<ge> 0
        \<longrightarrow> validateDebtPaid bal t db = (Inr (), saveUser (user\<lparr>currentFines := None\<rparr>) db)
          \<and> findUser uid (saveUser (user\<lparr>currentFines := None\<rparr>) db)
              = Some (user\<lparr>currentFines := None\<rparr>)
          \<and> fineTable (saveUser (user\<lparr>currentFines := None\<rparr>) db) = fineTable db
          \<and> userFineGroupTable (saveUser (user\<lparr>currentFines := None\<rparr>) db)
              = userFineGroupTable db
          \<and> transferTable (saveUser (user\<lparr>currentFines := None\<rparr>) db) = transferTable db)"
proof (intro conjI impI)
  assume "toId t = None"
  then show "validateDebtPaid bal t db = (Inr (), db)"
    by (simp add: validateDebtPaid_def)
next
  assume "toId t = Some uid \<and> findUser uid db = Some user \<and> currentFines user = None"
  then show "validateDebtPaid bal t db = (Inr (), db)"
    by (simp add: validateDebtPaid_def)
next
  assume a: "toId t = Some uid \<and> findUser uid db = Some user \<and> bal db None uid < 0"
  then have "userId user = uid" using findUser_userId by blast
  with a show "validateDebtPaid bal t db = (Inr (), db)"
    by (simp add: validateDebtPaid_def split: option.splits)
next
  assume a: "toId t = Some uid \<and> findUser uid db = Some user \<and> currentFines user \<noteq> None
    \<and> bal db None uid \<ge> 0"
  then have u: "userId user = uid" using findUser_userId by blast
  with a show "validateDebtPaid bal t db = (Inr (), saveUser (user\<lparr>currentFines := None\<rparr>) db)"
    by (auto simp: validateDebtPaid_def split: option.splits)
  from a u show "findUser uid (saveUser (user\<lparr>currentFines := None\<rparr>) db)
      = Some (user\<lparr>currentFines := None\<rparr>)"
    by (simp add: findUser_saveUser)
  show "fineTable (saveUser (user\<lparr>currentFines := None\<rparr>) db) = fineTable db"
    by (simp add: saveUser_def)
  show "userFineGroupTable (saveUser (user\<lparr>currentFines := None\<rparr>) db) = userFineGroupTable db"
    by (simp add: saveUser_def)
  show "transferTable (saveUser (user\<lparr>currentFines := None\<rparr>) db) = transferTable db"
    by (simp add: saveUser_def)
qed

theorem validateDebtPaid_effect_witness:
  "toId deposit = Some 1
   \<and> findUser 1 depositedLedger
       = Some \<lparr>userId = 1, firstName = ''Ada'', userType = 1, currentFines = Some 1\<rparr>
   \<and> transferBalance (\<lambda>u. 0) depositedLedger None 1 = 1700
   \<and> transferBalance (\<lambda>u. - 5000) depositedLedger None 1 = - 3300
   \<and> validateDebtPaid (transferBalance (\<lambda>u. - 5000)) deposit depositedLedger
       = (Inr (), depositedLedger)
   \<and> validateDebtPaid (transferBalance (\<lambda>u. 0)) deposit depositedLedger
       = (Inr (), saveUser \<lparr>userId = 1, firstName = ''Ada'', userType = 1, currentFines = None\<rparr>
                    depositedLedger)
   \<and> fineTable (saveUser \<lparr>userId = 1, firstName = ''Ada'', userType = 1, currentFines = None\<rparr>
                  depositedLedger)
       = fineTable depositedLedger"
  using validateDebtPaid_effect [of deposit "transferBalance (\<lambda>u. - 5000)" depositedLedger 1
      "\<lparr>userId = 1, firstName = ''Ada'', userType = 1, currentFines = Some 1\<rparr>"]
    validateDebtPaid_effect [of deposit "transferBalance (\<lambda>u. 0)" depositedLedger 1
      "\<lparr>userId = 1, firstName = ''Ada'', userType = 1, currentFines = Some 1\<rparr>"]
  by (simp add: depositedLedger_def finedLedger_def deposit_def findUser_def transferBalance_def)

subsection \<open>Who is fined\<close>

lemma filter_listed:
  "filter (\<lambda>b. fst b \<in> S) (map f (filter P xs)) = map f (filter (\<lambda>u. P u \<and> fst (f u) \<in> S) xs)"
  by (simp add: filter_map comp_def)

text \<open>
  C2. \<open>calculateFinesOnDate\<close> returns exactly the users, among those the filter on ids and
  types selects, whose balance is at most -500 both on the reference date and now, each with
  the fine computed from the balance on the reference date. So a user whose balance is now
  above -500 is not returned, whatever it was on the reference date, and a user whose balance
  on the reference date was above -500 is not returned, whatever it is now.
\<close>

theorem calculateFinesOnDate_persistent_debtors:
  "calculateFinesOnDate bal userTypes userIds refDate db =
     map (\<lambda>u. (userId u, calculateFine (bal db refDate (userId u))))
       (filter (\<lambda>u. (case userIds of None \<Rightarrow> True | Some l \<Rightarrow> userId u \<in> set l)
                   \<and> (case userTypes of None \<Rightarrow> True | Some l \<Rightarrow> userType u \<in> set l)
                   \<and> bal db refDate (userId u) \<le> - 500
                   \<and> bal db None (userId u) \<le> - 500)
          (userTable db))
   \<and> (\<forall>uid. - 500 < bal db None uid \<longrightarrow>
          uid \<notin> fst ` set (calculateFinesOnDate bal userTypes userIds refDate db))
   \<and> (\<forall>uid. - 500 < bal db refDate uid \<longrightarrow>
          uid \<notin> fst ` set (calculateFinesOnDate bal userTypes userIds refDate db))"
proof -
  let ?sel = "\<lambda>u. (case userIds of None \<Rightarrow> True | Some l \<Rightarrow> userId u \<in> set l)
                   \<and> (case userTypes of None \<Rightarrow> True | Some l \<Rightarrow> userType u \<in> set l)"
  let ?now = "filter (\<lambda>u. ?sel u \<and> bal db None (userId u) \<le> - 500) (userTable db)"
  let ?both = "filter (\<lambda>u. (case userIds of None \<Rightarrow> True | Some l \<Rightarrow> userId u \<in> set l)
                   \<and> (case userTypes of None \<Rightarrow> True | Some l \<Rightarrow> userType u \<in> set l)
                   \<and> bal db refDate (userId u) \<le> - 500
                   \<and> bal db None (userId u) \<le> - 500) (userTable db)"
  have both: "filter (\<lambda>u. (?sel u \<and> bal db refDate (userId u) \<le> - 500)
                        \<and> userId u \<in> userId ` set ?now) (userTable db) = ?both"
    by (rule filter_cong) (auto simp: image_iff)
  have eq: "calculateFinesOnDate bal userTypes userIds refDate db =
     map (\<lambda>u. (userId u, calculateFine (bal db refDate (userId u)))) ?both"
    unfolding calculateFinesOnDate_def getBalances_def Let_def
    by (simp add: filter_listed comp_def image_image both [simplified] conj_ac)
  have ex: "uid \<notin> fst ` set (calculateFinesOnDate bal userTypes userIds refDate db)"
    if "- 500 < bal db None uid \<or> - 500 < bal db refDate uid" for uid
    using that unfolding eq by (auto simp: image_iff)
  from eq ex show ?thesis by simp
qed

theorem calculateFinesOnDate_persistent_debtors_witness:
  "datedBalance finedLedger (Some 10) 2 \<le> - 500
   \<and> - 500 < datedBalance finedLedger None 2
   \<and> calculateFinesOnDate datedBalance None (Some [1, 2]) (Some 10) finedLedger = [(1, 200)]
   \<and> 2 \<notin> fst ` set (calculateFinesOnDate datedBalance None (Some [1, 2]) (Some 10) finedLedger)
   \<and> datedBalance finedLedger None 1 \<le> - 500
   \<and> - 500 < datedBalance finedLedger (Some 5) 1
   \<and> calculateFinesOnDate datedBalance None None (Some 5) finedLedger = []
   \<and> calculateFinesOnDate datedBalance None None None finedLedger = [(1, 100)]"
  using calculateFinesOnDate_persistent_debtors [of datedBalance None "Some [1, 2]" "Some 10" finedLedger]
    calculateFinesOnDate_persistent_debtors [of datedBalance None None "Some 5" finedLedger]
    calculateFinesOnDate_persistent_debtors [of datedBalance None None None finedLedger]
  by (simp add: datedBalance_def finedLedger_def calculateFine_def)

subsection \<open>Waiving fines\<close>

text \<open>
  C6. \<open>waiveFines\<close> fails with an error when the user does not exist and returns without
  any change when the user has no active fine group. Otherwise, when the insert is accepted,
  it appends exactly one transfer to the user, from nobody, whose amount is the sum of the
  fines of the active group, stores its id as the group's \<open>waivedTransfer\<close>, and clears the
  user's \<open>currentFines\<close>; the fines stay, and a second call on the resulting ledger changes
  nothing.
\<close>

theorem waiveFines_effect:
  "(findUser uid db = None \<longrightarrow> waiveFines bal rejected uid db = (Inl (UserDoesNotExist uid), db))
   \<and> (findUser uid db = Some user \<and> currentFines user = None
        \<longrightarrow> waiveFines bal rejected uid db = (Inr (), db))
   \<and> (findUser uid db = Some user \<and> currentFines user = Some g
        \<and> t = \<lparr>transferId = newId (map transferId (transferTable db)), fromId = None,
                 toId = Some uid,
                 amount = sum_list (map fineAmount (filter (\<lambda>f. userFineGroup f = g) (fineTable db))),
                 description = WaivedFines\<rparr>
        \<and> \<not> rejected t
        \<longrightarrow> (\<exists>db'. waiveFines bal rejected uid db = (Inr (), db')
              \<and> transferTable db' = transferTable db @ [t]
              \<and> userFineGroupTable db'
                   = map (\<lambda>r. if groupId r = g then r\<lparr>waivedTransfer := Some (transferId t)\<rparr> else r)
                       (userFineGroupTable db)
              \<and> findUser uid db' = Some (user\<lparr>currentFines := None\<rparr>)
              \<and> fineTable db' = fineTable db
              \<and> waiveFines bal rejected uid db' = (Inr (), db')))"
proof (intro conjI impI)
  assume "findUser uid db = None"
  then show "waiveFines bal rejected uid db = (Inl (UserDoesNotExist uid), db)"
    by (simp add: waiveFines_def)
next
  assume "findUser uid db = Some user \<and> currentFines user = None"
  then show "waiveFines bal rejected uid db = (Inr (), db)"
    by (simp add: waiveFines_def)
next
  assume a: "findUser uid db = Some user \<and> currentFines user = Some g
        \<and> t = \<lparr>transferId = newId (map transferId (transferTable db)), fromId = None,
                 toId = Some uid,
                 amount = sum_list (map fineAmount (filter (\<lambda>f. userFineGroup f = g) (fineTable db))),
                 description = WaivedFines\<rparr>
        \<and> \<not> rejected t"
  then have u: "userId user = uid" using findUser_userId by blast
  let ?cleared = "user\<lparr>currentFines := None\<rparr>"
  let ?db1 = "db\<lparr>transferTable := transferTable db @ [t]\<rparr>"
  let ?groups = "map (\<lambda>r. if groupId r = g then r\<lparr>waivedTransfer := Some (transferId t)\<rparr> else r)
                       (userFineGroupTable db)"
  let ?db' = "saveUser ?cleared (?db1\<lparr>userFineGroupTable := ?groups\<rparr>)"
  have f1: "findUser uid ?db1 = Some user"
    using a by (simp add: findUser_def)
  have hook: "validateDebtPaid bal t ?db1 = (Inr (), ?db1)
            \<or> validateDebtPaid bal t ?db1 = (Inr (), saveUser ?cleared ?db1)"
    using a f1 u by (simp add: validateDebtPaid_def)
  have ct: "createTransfer bal rejected (amount t) None (Some uid) WaivedFines db
              = (Inr t, snd (validateDebtPaid bal t ?db1))"
    using a hook by (auto simp: createTransfer_def Let_def)
  have res: "waiveFines bal rejected uid db = (Inr (), ?db')"
    using a u ct hook
    by (auto simp: waiveFines_def Let_def saveUser_def comp_def)
  have f2: "findUser uid ?db' = Some ?cleared"
  proof -
    have "findUser uid (?db1\<lparr>userFineGroupTable := ?groups\<rparr>) = Some user"
      using a by (simp add: findUser_def)
    then show ?thesis using u by (simp add: findUser_saveUser)
  qed
  have again: "waiveFines bal rejected uid ?db' = (Inr (), ?db')"
    using f2 by (simp add: waiveFines_def)
  have "transferTable ?db' = transferTable db @ [t]" "userFineGroupTable ?db' = ?groups"
    "fineTable ?db' = fineTable db"
    by (simp_all add: saveUser_def)
  with res f2 again
  show "\<exists>db'. waiveFines bal rejected uid db = (Inr (), db')
              \<and> transferTable db' = transferTable db @ [t]
              \<and> userFineGroupTable db' = ?groups
              \<and> findUser uid db' = Some ?cleared
              \<and> fineTable db' = fineTable db
              \<and> waiveFines bal rejected uid db' = (Inr (), db')"
    by blast
qed

theorem waiveFines_effect_witness:
  "findUser 1 finedLedger
     = Some \<lparr>userId = 1, firstName = ''Ada'', userType = 1, currentFines = Some 1\<rparr>
   \<and> map fineAmount (filter (\<lambda>f. userFineGroup f = 1) (fineTable finedLedger)) = [100, 200]
   \<and> waiveFines (transferBalance (\<lambda>u. - 1000)) (\<lambda>t. False) 1 finedLedger = (Inr (), waivedLedger)
   \<and> waiveFines (transferBalance (\<lambda>u. - 1000)) (\<lambda>t. False) 1 waivedLedger = (Inr (), waivedLedger)
   \<and> waiveFines (transferBalance (\<lambda>u. - 1000)) (\<lambda>t. False) 2 finedLedger = (Inr (), finedLedger)
   \<and> waiveFines (transferBalance (\<lambda>u. - 1000)) (\<lambda>t. False) 3 finedLedger
       = (Inl (UserDoesNotExist 3), finedLedger)"
  using waiveFines_effect [of 1 finedLedger "transferBalance (\<lambda>u. - 1000)" "\<lambda>t. False"
      "\<lparr>userId = 1, firstName = ''Ada'', userType = 1, currentFines = Some 1\<rparr>" 1
      "\<lparr>transferId = 3, fromId = None, toId = Some 1, amount = 300, description = WaivedFines\<rparr>"]
    waiveFines_effect [of 2 finedLedger "transferBalance (\<lambda>u. - 1000)" "\<lambda>t. False"
      "\<lparr>userId = 2, firstName = ''Bob'', userType = 1, currentFines = None\<rparr>"]
    waiveFines_effect [of 3 finedLedger "transferBalance (\<lambda>u. - 1000)" "\<lambda>t. False"]
  by (simp add: waivedLedger_def finedLedger_def findUser_def newId_def waiveFines_def
      createTransfer_def validateDebtPaid_def saveUser_def transferBalance_def Let_def)

subsection \<open>Approvals and revision numbers\<close>

lemma nextRevision_Suc: "nextRevision (if n = 0 then None else Some n) = Suc n"
  by (simp add: nextRevision_def)

lemma approveProductUpdate_missing:
  "productTable s p = None \<or> updatedProductTable s p = None \<Longrightarrow>
   approveProductUpdate p s = (Inr None, s)"
  by (auto simp: approveProductUpdate_def split: option.splits)

lemma approveProductUpdate_fresh:
  assumes "productTable s p = Some b" "updatedProductTable s p = Some d"
    "productRevisionTable s (p, nextRevision (currentRevision b)) = None"
  shows "approveProductUpdate p s =
     (Inr (Some \<lparr>productId = p, revision = Some (nextRevision (currentRevision b)), body = d\<rparr>),
      approvedProduct p b d s)"
  using assms
  by (simp add: approveProductUpdate_def getUpdatedProduct_def saveProductRevision_def
      getProduct_def approvedProduct_def Let_def)

lemma productAt_next:
  assumes "productAt p n s" "productTable s p = Some b"
  shows "nextRevision (currentRevision b) = Suc n"
proof -
  from assms have "currentRevision b = (if n = 0 then None else Some n)"
    by (auto simp: productAt_def)
  then show ?thesis by (simp only: nextRevision_Suc)
qed

lemma productAt_fresh:
  assumes "productAt p n s" "productTable s p = Some b"
  shows "productRevisionTable s (p, nextRevision (currentRevision b)) = None"
proof -
  from assms(1) have "productRevisionTable s (p, Suc n) \<noteq> None \<longleftrightarrow> 1 \<le> Suc n \<and> Suc n \<le> n"
    unfolding productAt_def by blast
  then show ?thesis
    by (simp add: productAt_next [OF assms])
qed

lemma productAt_approved_same:
  assumes "productAt p n s" "productTable s p = Some b"
  shows "productAt p (Suc n) (approvedProduct p b d s)"
proof -
  have nr: "nextRevision (currentRevision b) = Suc n"
    by (rule productAt_next [OF assms])
  from assms(1) have revs: "\<And>r. productRevisionTable s (p, r) \<noteq> None \<longleftrightarrow> 1 \<le> r \<and> r \<le> n"
    and lt: "p < nextProductId s"
    by (simp_all add: productAt_def)
  show ?thesis
    unfolding productAt_def approvedProduct_def nr
    using revs lt by (auto simp: le_Suc_eq)
qed

lemma productAt_approved_other:
  assumes "productAt p n s" "q \<noteq> p"
  shows "productAt p n (approvedProduct q b d s)"
  using assms unfolding productAt_def approvedProduct_def by simp

lemma approveProductUpdate_same_row:
  assumes "productTable s p = Some b" "updatedProductTable s p = Some d"
    "productRevisionTable s (p, nextRevision (currentRevision b)) = Some d"
  shows "approveProductUpdate p s =
     (Inr (Some \<lparr>productId = p, revision = Some (nextRevision (currentRevision b)), body = d\<rparr>),
      approvedProduct p b d s)"
proof -
  from assms(3) have "(productRevisionTable s)((p, nextRevision (currentRevision b)) \<mapsto> d)
      = productRevisionTable s"
    by (rule map_upd_triv)
  with assms show ?thesis
    by (simp add: approveProductUpdate_def getUpdatedProduct_def saveProductRevision_def
        getProduct_def approvedProduct_def Let_def)
qed

lemma approveProductUpdate_denied:
  assumes "productTable s p = Some b" "updatedProductTable s p = Some d"
    "productRevisionTable s (p, nextRevision (currentRevision b)) = Some old" "old \<noteq> d"
  shows "approveProductUpdate p s = (Inl ImmutableEntity, s)"
  using assms
  by (simp add: approveProductUpdate_def getUpdatedProduct_def saveProductRevision_def
      denyUpdate_def Let_def)

lemma approveProductUpdate_cases:
  obtains (missing) "productTable s p = None \<or> updatedProductTable s p = None"
      "approveProductUpdate p s = (Inr None, s)"
  | (denied) b d old where "productTable s p = Some b" "updatedProductTable s p = Some d"
      "productRevisionTable s (p, nextRevision (currentRevision b)) = Some old" "old \<noteq> d"
      "approveProductUpdate p s = (Inl ImmutableEntity, s)"
  | (approved) b d where "productTable s p = Some b" "updatedProductTable s p = Some d"
      "productRevisionTable s (p, nextRevision (currentRevision b)) \<in> {None, Some d}"
      "approveProductUpdate p s =
         (Inr (Some \<lparr>productId = p, revision = Some (nextRevision (currentRevision b)), body = d\<rparr>),
          approvedProduct p b d s)"
proof (cases "productTable s p")
  case None
  then show ?thesis using missing approveProductUpdate_missing by blast
next
  case (Some b)
  note b = this
  show ?thesis
  proof (cases "updatedProductTable s p")
    case None
    then show ?thesis using missing approveProductUpdate_missing by blast
  next
    case (Some d)
    note d = this
    show ?thesis
    proof (cases "productRevisionTable s (p, nextRevision (currentRevision b))")
      case None
      then show ?thesis using approved [OF b d] approveProductUpdate_fresh [OF b d] by simp
    next
      case (Some old)
      show ?thesis
      proof (cases "old = d")
        case True
        with Some show ?thesis
          using approved [OF b d] approveProductUpdate_same_row [OF b d] by simp
      next
        case False
        with Some show ?thesis
          using denied [OF b d] approveProductUpdate_denied [OF b d] by simp
      qed
    qed
  qed
qed

lemma approveProductUpdate_productAt:
  assumes "productAt p n s" "approveProductUpdate q s = (r, s')"
  shows "productAt p (if q = p \<and> r \<noteq> Inr None then Suc n else n) s' \<and> (q = p \<longrightarrow> (\<exists>x. r = Inr x))"
proof (cases rule: approveProductUpdate_cases [of s q])
  case missing
  with assms show ?thesis by auto
next
  case (denied b d old)
  show ?thesis
  proof (cases "q = p")
    case True
    with denied(1,3) productAt_fresh [OF assms(1)] show ?thesis by simp
  next
    case False
    with denied assms show ?thesis by simp
  qed
next
  case (approved b d)
  show ?thesis
  proof (cases "q = p")
    case True
    with approved assms productAt_approved_same [OF assms(1), of b d] show ?thesis by auto
  next
    case False
    with approved assms productAt_approved_other [OF assms(1), of q b d] show ?thesis by auto
  qed
qed

lemma nextRevision_gt: "currentRevision b = Some c \<Longrightarrow> c < nextRevision (currentRevision b)"
  by (simp add: nextRevision_def)

lemma nextRevision_pos: "1 \<le> nextRevision cur"
  by (simp add: nextRevision_def split: option.splits)

lemma consistent_fresh:
  assumes "consistent s" "productTable s p = Some b"
  shows "productRevisionTable s (p, nextRevision (currentRevision b)) = None"
proof (rule ccontr)
  assume "productRevisionTable s (p, nextRevision (currentRevision b)) \<noteq> None"
  with assms obtain c where "currentRevision b = Some c" "nextRevision (currentRevision b) \<le> c"
    unfolding consistent_def by fastforce
  with nextRevision_gt [of b c] show False by simp
qed

lemma consistent_approved:
  assumes "consistent s" "productTable s p = Some b"
  shows "consistent (approvedProduct p b d s)"
  unfolding consistent_def
proof (intro conjI allI impI)
  fix q r
  assume a: "productRevisionTable (approvedProduct p b d s) (q, r) \<noteq> None"
  show "\<exists>b' c. productTable (approvedProduct p b d s) q = Some b' \<and> currentRevision b' = Some c
          \<and> 1 \<le> r \<and> r \<le> c"
  proof (cases "q = p")
    case False
    with a assms(1) show ?thesis
      unfolding consistent_def approvedProduct_def by simp
  next
    case True
    show ?thesis
    proof (cases "r = nextRevision (currentRevision b)")
      case True
      with \<open>q = p\<close> nextRevision_pos [of "currentRevision b"] show ?thesis
        unfolding approvedProduct_def by simp
    next
      case False
      with a \<open>q = p\<close> have "productRevisionTable s (p, r) \<noteq> None"
        unfolding approvedProduct_def by simp
      with assms obtain c where c: "currentRevision b = Some c" "1 \<le> r" "r \<le> c"
        unfolding consistent_def by fastforce
      with nextRevision_gt [of b c] \<open>q = p\<close> show ?thesis
        unfolding approvedProduct_def by simp
    qed
  qed
next
  fix q
  assume "nextProductId (approvedProduct p b d s) \<le> q"
  with assms show "productTable (approvedProduct p b d s) q = None"
    unfolding consistent_def approvedProduct_def by auto
qed

lemma approveProductUpdate_consistent:
  assumes "consistent s" "approveProductUpdate p s = (r, s')"
  shows "consistent s' \<and> r \<noteq> Inl ImmutableEntity"
proof (cases rule: approveProductUpdate_cases [of s p])
  case missing
  with assms show ?thesis by auto
next
  case (denied b d old)
  with consistent_fresh [OF assms(1) denied(1)] show ?thesis by simp
next
  case (approved b d)
  with assms consistent_approved [OF assms(1) approved(1), of d] show ?thesis by auto
qed

lemma sameContainers_refl: "sameContainers s s"
  by (simp add: sameContainers_def)

lemma sameContainers_trans: "sameContainers s t \<Longrightarrow> sameContainers t u \<Longrightarrow> sameContainers s u"
  by (simp add: sameContainers_def)

lemma sameProduct_refl: "sameProduct q s s"
  by (simp add: sameProduct_def)

lemma sameProduct_trans: "sameProduct q s t \<Longrightarrow> sameProduct q t u \<Longrightarrow> sameProduct q s u"
  by (simp add: sameProduct_def)

lemma approveProductUpdate_frame:
  assumes "approveProductUpdate p s = (r, s')"
  shows "sameContainers s s' \<and> nextProductId s' = nextProductId s
         \<and> (\<forall>q. q \<noteq> p \<longrightarrow> sameProduct q s s')"
proof (cases rule: approveProductUpdate_cases [of s p])
  case missing
  with assms show ?thesis by (auto simp: sameContainers_def sameProduct_def)
next
  case (denied b d old)
  with assms show ?thesis by (auto simp: sameContainers_def sameProduct_def)
next
  case (approved b d)
  with assms have "s' = approvedProduct p b d s" by simp
  then show ?thesis
    by (simp add: sameContainers_def sameProduct_def approvedProduct_def)
qed

lemma approveProducts_frame:
  "approveProducts ps ids s = (r, s') \<Longrightarrow>
   sameContainers s s' \<and> nextProductId s' = nextProductId s
   \<and> (\<forall>q. q \<notin> set ps \<longrightarrow> sameProduct q s s')
   \<and> (\<forall>ids'. r = Inr ids' \<longrightarrow> set ids \<subseteq> set ids')"
proof (induction ps arbitrary: ids s)
  case Nil
  then show ?case by (auto simp: sameContainers_refl sameProduct_refl)
next
  case (Cons p ps)
  obtain r1 s1 where step: "approveProductUpdate p s = (r1, s1)"
    by (cases "approveProductUpdate p s")
  note fr = approveProductUpdate_frame [OF step]
  show ?case
  proof (cases r1)
    case (Inl e)
    with Cons.prems step fr show ?thesis by auto
  next
    case (Inr x)
    show ?thesis
    proof (cases x)
      case None
      with Inr Cons.prems step fr show ?thesis by auto
    next
      case (Some up)
      with Inr Cons.prems step
      have rest: "approveProducts ps (ids @ [(productId up, revision up)]) s1 = (r, s')"
        by simp
      from Cons.IH [OF rest] fr show ?thesis
        by (auto intro: sameContainers_trans sameProduct_trans)
    qed
  qed
qed

lemma approveProducts_consistent:
  "consistent s \<Longrightarrow> approveProducts ps ids s = (r, s') \<Longrightarrow>
   consistent s' \<and> r \<noteq> Inl ImmutableEntity"
proof (induction ps arbitrary: ids s)
  case Nil
  then show ?case by auto
next
  case (Cons p ps)
  obtain r1 s1 where step: "approveProductUpdate p s = (r1, s1)"
    by (cases "approveProductUpdate p s")
  note c1 = approveProductUpdate_consistent [OF Cons.prems(1) step]
  show ?case
  proof (cases r1)
    case (Inl e)
    with Cons.prems step c1 show ?thesis by auto
  next
    case (Inr x)
    show ?thesis
    proof (cases x)
      case None
      with Inr Cons.prems step c1 show ?thesis by auto
    next
      case (Some up)
      with Inr Cons.prems step
      have rest: "approveProducts ps (ids @ [(productId up, revision up)]) s1 = (r, s')"
        by simp
      from Cons.IH [OF _ rest] c1 show ?thesis by simp
    qed
  qed
qed

lemma approveProducts_productAt:
  "productAt p n s \<Longrightarrow> approveProducts ps ids s = (r, s') \<Longrightarrow>
   productAt p (n + count_list (approvedProducts ps s) p) s'"
proof (induction ps arbitrary: n ids s)
  case Nil
  then show ?case by simp
next
  case (Cons q ps)
  obtain r1 s1 where step: "approveProductUpdate q s = (r1, s1)"
    by (cases "approveProductUpdate q s")
  from approveProductUpdate_productAt [OF Cons.prems(1) step]
  have at1: "productAt p (if q = p \<and> r1 \<noteq> Inr None then Suc n else n) s1"
    and res: "q = p \<longrightarrow> (\<exists>x. r1 = Inr x)" by simp_all
  show ?case
  proof (cases r1)
    case (Inl e)
    with res have "q \<noteq> p" by auto
    with Inl Cons.prems step at1 show ?thesis by auto
  next
    case (Inr x)
    show ?thesis
    proof (cases x)
      case None
      with Inr Cons.prems step at1 show ?thesis by auto
    next
      case (Some up)
      with Inr Cons.prems step
      have rest: "approveProducts ps (ids @ [(productId up, revision up)]) s1 = (r, s')"
        by simp
      from Some Inr at1 have "productAt p (n + (if q = p then 1 else 0)) s1"
        by (auto split: if_splits)
      from Cons.IH [OF this rest] Some Inr step show ?thesis
        by (auto simp: add.assoc)
    qed
  qed
qed

lemma createContainerRevision_fresh:
  assumes "containerRevisionTable s (c, nextRevision (currentRevision b))
     \<in> {None, Some \<lparr>revisionName = containerName raw,
                      revisionProducts = findProductRevisions ids s\<rparr>}"
  shows "createContainerRevision pol c b raw ids s =
     (Inr (Some (approvedResponse pol c b raw)), approvedContainer c b raw ids s)"
proof (cases "containerRevisionTable s (c, nextRevision (currentRevision b))")
  case None
  then show ?thesis
    by (simp add: createContainerRevision_def saveContainerRevision_def getProductsResponse_def
        getContainer_def approvedResponse_def approvedContainer_def Let_def)
next
  case (Some old)
  with assms have old: "old = \<lparr>revisionName = containerName raw,
      revisionProducts = findProductRevisions ids s\<rparr>" by simp
  with Some have "(containerRevisionTable s)((c, nextRevision (currentRevision b)) \<mapsto> old)
      = containerRevisionTable s"
    by (simp add: map_upd_triv)
  with Some old show ?thesis
    by (simp add: createContainerRevision_def saveContainerRevision_def getProductsResponse_def
        getContainer_def approvedResponse_def approvedContainer_def Let_def)
qed

lemma createContainerRevision_denied:
  assumes "containerRevisionTable s (c, nextRevision (currentRevision b)) = Some old"
    "old \<noteq> \<lparr>revisionName = containerName raw, revisionProducts = findProductRevisions ids s\<rparr>"
  shows "createContainerRevision pol c b raw ids s = (Inl ImmutableEntity, s)"
  using assms
  by (simp add: createContainerRevision_def saveContainerRevision_def denyUpdate_def Let_def)

lemma containerAt_same: "sameContainers s s' \<Longrightarrow> containerAt c n s \<Longrightarrow> containerAt c n s'"
  by (simp add: sameContainers_def containerAt_def)

lemma containerAt_next:
  assumes "containerAt c n s" "containerTable s c = Some b"
  shows "nextRevision (currentRevision b) = Suc n"
proof -
  from assms have "currentRevision b = (if n = 0 then None else Some n)"
    by (auto simp: containerAt_def)
  then show ?thesis by (simp only: nextRevision_Suc)
qed

lemma containerAt_fresh:
  assumes "containerAt c n s" "containerTable s c = Some b"
  shows "containerRevisionTable s (c, nextRevision (currentRevision b)) = None"
proof -
  from assms(1) have "containerRevisionTable s (c, Suc n) \<noteq> None \<longleftrightarrow> 1 \<le> Suc n \<and> Suc n \<le> n"
    unfolding containerAt_def by blast
  then show ?thesis
    by (simp add: containerAt_next [OF assms])
qed

lemma containerAt_approved_same:
  assumes "containerAt c n s" "containerTable s c = Some b"
  shows "containerAt c (Suc n) (approvedContainer c b raw ids s)"
proof -
  have nr: "nextRevision (currentRevision b) = Suc n"
    by (rule containerAt_next [OF assms])
  from assms(1) have revs: "\<And>r. containerRevisionTable s (c, r) \<noteq> None \<longleftrightarrow> 1 \<le> r \<and> r \<le> n"
    and lt: "c < nextContainerId s"
    by (simp_all add: containerAt_def)
  show ?thesis
    unfolding containerAt_def approvedContainer_def nr
    using revs lt by (auto simp: le_Suc_eq)
qed

lemma containerAt_approved_other:
  assumes "containerAt c n s" "d \<noteq> c"
  shows "containerAt c n (approvedContainer d b raw ids s)"
  using assms unfolding containerAt_def approvedContainer_def by simp

text \<open>
  The outcomes of \<open>approveContainerUpdate\<close>. \<open>ids\<close> and \<open>s1\<close> are the id list and the store
  with which the revision is created: those of the call in the later version, those that
  the product approvals leave in the earlier one.
\<close>

lemma approveContainerUpdate_cases:
  obtains (missing) "containerTable s c = None \<or> updatedContainerTable s c = None"
      "approveContainerUpdate pol c s = (Inr None, s)"
  | (unapproved) b raw where "containerTable s c = Some b" "updatedContainerTable s c = Some raw"
      "pol = Strict" "findUpdatedProducts (draftProductIds raw s) s \<noteq> []"
      "approveContainerUpdate pol c s = (Inl UnapprovedProductError, s)"
  | (rejected) b raw e s1 where "containerTable s c = Some b" "updatedContainerTable s c = Some raw"
      "pol = Lax"
      "approveProducts (findUpdatedProducts (draftProductIds raw s) s) (draftProductIds raw s) s
         = (Inl e, s1)"
      "approveContainerUpdate pol c s = (Inl e, s1)"
  | (denied) b raw ids s1 old where "containerTable s c = Some b"
      "updatedContainerTable s c = Some raw"
      "pol = Strict \<and> findUpdatedProducts (draftProductIds raw s) s = []
            \<and> ids = draftProductIds raw s \<and> s1 = s
       \<or> pol = Lax
            \<and> approveProducts (findUpdatedProducts (draftProductIds raw s) s) (draftProductIds raw s) s
                 = (Inr ids, s1)"
      "containerRevisionTable s1 (c, nextRevision (currentRevision b)) = Some old"
      "old \<noteq> \<lparr>revisionName = containerName raw, revisionProducts = findProductRevisions ids s1\<rparr>"
      "approveContainerUpdate pol c s = (Inl ImmutableEntity, s1)"
  | (approved) b raw ids s1 where "containerTable s c = Some b" "updatedContainerTable s c = Some raw"
      "pol = Strict \<and> findUpdatedProducts (draftProductIds raw s) s = []
            \<and> ids = draftProductIds raw s \<and> s1 = s
       \<or> pol = Lax
            \<and> approveProducts (findUpdatedProducts (draftProductIds raw s) s) (draftProductIds raw s) s
                 = (Inr ids, s1)"
      "containerRevisionTable s1 (c, nextRevision (currentRevision b))
         \<in> {None, Some \<lparr>revisionName = containerName raw,
                          revisionProducts = findProductRevisions ids s1\<rparr>}"
      "approveContainerUpdate pol c s =
         (Inr (Some (approvedResponse pol c b raw)), approvedContainer c b raw ids s1)"
proof (cases "containerTable s c")
  case None
  then show ?thesis using missing by (simp add: approveContainerUpdate_def)
next
  case (Some b)
  note b = this
  show ?thesis
  proof (cases "updatedContainerTable s c")
    case None
    with b show ?thesis using missing by (simp add: approveContainerUpdate_def)
  next
    case (Some raw)
    note raw = this
    let ?ups = "findUpdatedProducts (draftProductIds raw s) s"
    have create: thesis
      if pre: "pol = Strict \<and> ?ups = [] \<and> ids = draftProductIds raw s \<and> s1 = s
         \<or> pol = Lax \<and> approveProducts ?ups (draftProductIds raw s) s = (Inr ids, s1)"
        and call: "approveContainerUpdate pol c s = createContainerRevision pol c b raw ids s1"
      for ids s1
    proof (cases "containerRevisionTable s1 (c, nextRevision (currentRevision b))
         \<in> {None, Some \<lparr>revisionName = containerName raw,
                          revisionProducts = findProductRevisions ids s1\<rparr>}")
      case True
      from createContainerRevision_fresh [OF True] call
      show ?thesis using approved [OF b raw pre True] by simp
    next
      case False
      then obtain old where old:
        "containerRevisionTable s1 (c, nextRevision (currentRevision b)) = Some old"
        "old \<noteq> \<lparr>revisionName = containerName raw, revisionProducts = findProductRevisions ids s1\<rparr>"
        by (cases "containerRevisionTable s1 (c, nextRevision (currentRevision b))") auto
      from createContainerRevision_denied [OF old] call
      show ?thesis using denied [OF b raw pre old] by simp
    qed
    show ?thesis
    proof (cases pol)
      case Strict
      show ?thesis
      proof (cases "?ups = []")
        case True
        with b raw Strict show ?thesis
          by (intro create [of "draftProductIds raw s" s]) (simp_all add: approveContainerUpdate_def)
      next
        case False
        with b raw Strict show ?thesis
          using unapproved [OF b raw] by (simp add: approveContainerUpdate_def)
      qed
    next
      case Lax
      obtain r1 s1 where ap: "approveProducts ?ups (draftProductIds raw s) s = (r1, s1)"
        by (cases "approveProducts ?ups (draftProductIds raw s) s")
      show ?thesis
      proof (cases r1)
        case (Inl e)
        with b raw Lax ap show ?thesis
          using rejected [OF b raw, of e s1] by (simp add: approveContainerUpdate_def)
      next
        case (Inr ids)
        with b raw Lax ap show ?thesis
          by (intro create [of ids s1]) (simp_all add: approveContainerUpdate_def)
      qed
    qed
  qed
qed

lemma approveContainerUpdate_sameContainers:
  assumes "approveContainerUpdate pol c s = (r, s')"
  obtains (kept) "sameContainers s s'" "\<forall>x. r \<noteq> Inr (Some x)"
  | (approved) b raw ids s1 where "containerTable s c = Some b" "sameContainers s s1"
      "containerRevisionTable s1 (c, nextRevision (currentRevision b))
         \<in> {None, Some \<lparr>revisionName = containerName raw,
                          revisionProducts = findProductRevisions ids s1\<rparr>}"
      "s' = approvedContainer c b raw ids s1" "\<exists>x. r = Inr (Some x)"
proof (cases rule: approveContainerUpdate_cases [of s c pol])
  case missing
  with assms kept show ?thesis by (auto simp: sameContainers_refl)
next
  case (unapproved b raw)
  with assms kept show ?thesis by (auto simp: sameContainers_refl)
next
  case (rejected b raw e s1)
  with assms kept approveProducts_frame [OF rejected(4)] show ?thesis by auto
next
  case (denied b raw ids s1 old)
  from denied(3) have "sameContainers s s1"
    using approveProducts_frame by (auto simp: sameContainers_refl)
  with assms kept denied show ?thesis by auto
next
  case (approved b raw ids s1)
  from approved(3) have "sameContainers s s1"
    using approveProducts_frame by (auto simp: sameContainers_refl)
  with assms approved show ?thesis
    using that(2) [of b s1 raw ids] by auto
qed

lemma approveContainerUpdate_containerAt:
  assumes "containerAt c n s" "approveContainerUpdate pol d s = (r, s')"
  shows "containerAt c (if d = c \<and> (\<exists>x. r = Inr (Some x)) then Suc n else n) s'"
  using assms(2)
proof (cases rule: approveContainerUpdate_sameContainers)
  case kept
  with assms(1) show ?thesis by (auto intro: containerAt_same)
next
  case (approved b raw ids s1)
  have at1: "containerAt c n s1"
    using approved(2) assms(1) by (rule containerAt_same)
  from approved(1,2) have b1: "containerTable s1 d = Some b"
    by (simp add: sameContainers_def)
  show ?thesis
  proof (cases "d = c")
    case True
    with approved b1 containerAt_approved_same [OF at1, of b raw ids] show ?thesis by auto
  next
    case False
    with approved containerAt_approved_other [OF at1, of d b raw ids] show ?thesis by auto
  qed
qed
lemma createProduct_frame:
  "createProduct own d s = (r, s') \<Longrightarrow>
   sameContainers s s' \<and> nextProductId s' = Suc (nextProductId s)
   \<and> (\<forall>q. q \<noteq> nextProductId s \<longrightarrow> sameProduct q s s')
   \<and> productTable s' (nextProductId s) = Some \<lparr>owner = own, currentRevision = None\<rparr>
   \<and> (\<forall>k. productRevisionTable s' k = productRevisionTable s k)
   \<and> (\<exists>x. r = Inr x)"
  by (auto simp: createProduct_def Let_def sameContainers_def sameProduct_def)

lemma updateProduct_frame:
  "updateProduct p d s = (r, s') \<Longrightarrow>
   sameContainers s s' \<and> nextProductId s' = nextProductId s
   \<and> productTable s' = productTable s \<and> productRevisionTable s' = productRevisionTable s
   \<and> (\<exists>x. r = Inr x)"
  by (auto simp: updateProduct_def Let_def sameContainers_def split: option.splits)

lemma getProductsResponse_store: "snd (getProductsResponse pol c updated s) = s"
  by (simp add: getProductsResponse_def split: option.splits)

lemma getProductsResponse_updated:
  "containerTable s c = Some b \<Longrightarrow> updatedContainerTable s c = Some raw \<Longrightarrow>
   \<exists>x. getProductsResponse pol c True s = (Inr (Some x), s)"
  by (cases pol) (simp_all add: getProductsResponse_def getUpdatedContainer_def)

lemma updateContainer_frame:
  assumes "updateContainer pol c u s = (r, s')"
  shows "sameProducts s s' \<and> containerTable s' = containerTable s
   \<and> nextContainerId s' = nextContainerId s
   \<and> containerRevisionTable s' = containerRevisionTable s \<and> (\<exists>x. r = Inr x)"
proof (cases "containerTable s c")
  case None
  with assms show ?thesis by (auto simp: updateContainer_def sameProducts_def)
next
  case (Some b)
  let ?s1 = "s\<lparr>updatedContainerTable := (updatedContainerTable s)
       (c \<mapsto> \<lparr>containerName = containerName u,
              products = filter (\<lambda>p. productTable s p \<noteq> None) (products u)\<rparr>)\<rparr>"
  from Some have "\<exists>x. getProductsResponse pol c True ?s1 = (Inr (Some x), ?s1)"
    by (intro getProductsResponse_updated) simp_all
  with Some assms show ?thesis
    by (auto simp: updateContainer_def Let_def sameProducts_def)
qed

lemma createContainer_frame:
  assumes "createContainer pol own u s = (r, s')"
  shows "sameProducts s s' \<and> nextContainerId s' = Suc (nextContainerId s)
   \<and> (\<forall>c. c \<noteq> nextContainerId s \<longrightarrow> containerTable s' c = containerTable s c)
   \<and> containerTable s' (nextContainerId s)
        = Some \<lparr>owner = own, currentRevision = None, public = requestPublic u\<rparr>
   \<and> containerRevisionTable s' = containerRevisionTable s \<and> (\<exists>x. r = Inr x)"
proof -
  let ?s1 = "s\<lparr>containerTable := (containerTable s)
                   (nextContainerId s \<mapsto> \<lparr>owner = own, currentRevision = None, public = requestPublic u\<rparr>),
                 nextContainerId := nextContainerId s + 1\<rparr>"
  from assms have "updateContainer pol (nextContainerId s) u ?s1 = (r, s')"
    by (simp add: createContainer_def Let_def)
  from updateContainer_frame [OF this] show ?thesis
    by (simp add: sameProducts_def)
qed

lemma productAt_sameProducts: "sameProducts s s' \<Longrightarrow> productAt p n s \<Longrightarrow> productAt p n s'"
  by (simp add: sameProducts_def productAt_def)

lemma consistent_sameProducts: "sameProducts s s' \<Longrightarrow> consistent s \<Longrightarrow> consistent s'"
  by (simp add: sameProducts_def consistent_def)

lemma containersConsistent_same:
  "sameContainers s s' \<Longrightarrow> containersConsistent s \<Longrightarrow> containersConsistent s'"
  by (simp add: sameContainers_def containersConsistent_def)

lemma approvedContainer_sameProducts: "sameProducts s (approvedContainer c b raw ids s)"
  by (simp add: sameProducts_def approvedContainer_def)

lemma answered_eq:
  "answered res = (r, s') \<Longrightarrow>
   snd res = s' \<and> (r = Inr True \<longleftrightarrow> (\<exists>x. fst res = Inr (Some x)))
   \<and> (\<forall>e. r = Inl e \<longleftrightarrow> fst res = Inl e)"
  by (cases res) (auto simp: answered_def split: sum.splits)

lemma productAt_sameProduct:
  "sameProduct p s s' \<Longrightarrow> nextProductId s \<le> nextProductId s' \<Longrightarrow> productAt p n s
   \<Longrightarrow> productAt p n s'"
  by (simp add: sameProduct_def productAt_def)

lemma containerAt_sameProducts_frame:
  "containerTable s' = containerTable s \<Longrightarrow> nextContainerId s' = nextContainerId s \<Longrightarrow>
   containerRevisionTable s' = containerRevisionTable s \<Longrightarrow> containerAt c n s \<Longrightarrow>
   containerAt c n s'"
  by (simp add: containerAt_def)

text \<open>The product approvals of a container approval, counted.\<close>

lemma count_approvals_of_product:
  "count_list (map ApproveProduct ps) (ApproveProduct p) = count_list ps p"
  by (induction ps) auto

lemma count_approvals_of_container:
  "count_list (map ApproveProduct ps) (ApproveContainer c) = 0"
  by (induction ps) auto

lemma approveContainerUpdate_productAt:
  assumes "productAt p n s" "approveContainerUpdate pol c s = (r, s')"
  shows "productAt p (n + count_list (approvalsIn pol (ApproveContainer c) s) (ApproveProduct p)) s'"
proof (cases rule: approveContainerUpdate_cases [of s c pol])
  case missing
  then have "approvalsIn pol (ApproveContainer c) s = []"
    by (auto simp: approvalsIn_def answered_def split: policy.splits option.splits)
  with missing assms show ?thesis by simp
next
  case (unapproved b raw)
  then have "approvalsIn pol (ApproveContainer c) s = []"
    by (simp add: approvalsIn_def answered_def)
  with unapproved assms show ?thesis by simp
next
  case (rejected b raw e s1)
  then have "count_list (approvalsIn pol (ApproveContainer c) s) (ApproveProduct p)
      = count_list (approvedProducts (findUpdatedProducts (draftProductIds raw s) s) s) p"
    by (simp add: approvalsIn_def answered_def count_approvals_of_product)
  with rejected assms approveProducts_productAt [OF assms(1) rejected(4)] show ?thesis by simp
next
  case (denied b raw ids s1 old)
  show ?thesis
  proof (cases pol)
    case Strict
    with denied have "approvalsIn pol (ApproveContainer c) s = []" "s1 = s"
      by (simp_all add: approvalsIn_def answered_def)
    with denied assms show ?thesis by simp
  next
    case Lax
    with denied have "count_list (approvalsIn pol (ApproveContainer c) s) (ApproveProduct p)
        = count_list (approvedProducts (findUpdatedProducts (draftProductIds raw s) s) s) p"
      by (simp add: approvalsIn_def answered_def count_approvals_of_product)
    moreover from Lax denied(3)
    have "approveProducts (findUpdatedProducts (draftProductIds raw s) s) (draftProductIds raw s) s
        = (Inr ids, s1)" by simp
    note approveProducts_productAt [OF assms(1) this]
    ultimately show ?thesis using denied assms by simp
  qed
next
  case (approved b raw ids s1)
  have "productAt p (n + count_list (approvalsIn pol (ApproveContainer c) s) (ApproveProduct p)) s1"
  proof (cases pol)
    case Strict
    with approved have "count_list (approvalsIn pol (ApproveContainer c) s) (ApproveProduct p) = 0"
      "s1 = s"
      by (simp_all add: approvalsIn_def answered_def)
    with assms(1) show ?thesis by simp
  next
    case Lax
    with approved have "count_list (approvalsIn pol (ApproveContainer c) s) (ApproveProduct p)
        = count_list (approvedProducts (findUpdatedProducts (draftProductIds raw s) s) s) p"
      by (simp add: approvalsIn_def answered_def count_approvals_of_product)
    moreover from Lax approved(3)
    have "approveProducts (findUpdatedProducts (draftProductIds raw s) s) (draftProductIds raw s) s
        = (Inr ids, s1)" by simp
    note approveProducts_productAt [OF assms(1) this]
    ultimately show ?thesis by simp
  qed
  then have "productAt p (n + count_list (approvalsIn pol (ApproveContainer c) s) (ApproveProduct p))
      (approvedContainer c b raw ids s1)"
    using approvedContainer_sameProducts productAt_sameProducts by blast
  with approved assms show ?thesis by auto
qed

lemma perform_productAt:
  assumes "productAt p n s" "perform pol x s = (r, s')"
  shows "productAt p (n + count_list (approvalsIn pol x s) (ApproveProduct p)) s'"
proof (cases x)
  case (CreateProduct own d)
  obtain r0 s0 where c: "createProduct own d s = (r0, s0)" by (cases "createProduct own d s")
  with assms(2) CreateProduct have s0: "s0 = s'" using answered_eq by fastforce
  from assms(1) have "p \<noteq> nextProductId s" by (auto simp: productAt_def)
  with createProduct_frame [OF c] assms(1) s0 CreateProduct show ?thesis
    by (auto simp: approvalsIn_def intro: productAt_sameProduct)
next
  case (UpdateProduct q d)
  obtain r0 s0 where c: "updateProduct q d s = (r0, s0)" by (cases "updateProduct q d s")
  with assms(2) UpdateProduct have s0: "s0 = s'" using answered_eq by fastforce
  with updateProduct_frame [OF c] assms(1) UpdateProduct show ?thesis
    by (auto simp: productAt_def approvalsIn_def)
next
  case (ApproveProduct q)
  obtain r0 s0 where c: "approveProductUpdate q s = (r0, s0)" by (cases "approveProductUpdate q s")
  with assms(2) ApproveProduct have a: "answered (r0, s0) = (r, s')" by simp
  from answered_eq [OF a] have s0: "s0 = s'" and ok: "r = Inr True \<longleftrightarrow> (\<exists>y. r0 = Inr (Some y))"
    by simp_all
  from approveProductUpdate_productAt [OF assms(1) c]
  have at: "productAt p (if q = p \<and> r0 \<noteq> Inr None then Suc n else n) s0"
    and res: "q = p \<longrightarrow> (\<exists>y. r0 = Inr y)" by simp_all
  have "(q = p \<and> r0 \<noteq> Inr None) \<longleftrightarrow> (q = p \<and> r = Inr True)"
    using res ok by auto
  moreover from assms(2) ApproveProduct
  have "count_list (approvalsIn pol x s) (ApproveProduct p) = (if q = p \<and> r = Inr True then 1 else 0)"
    by (simp add: approvalsIn_def)
  ultimately show ?thesis using at s0 by (auto split: if_splits)
next
  case (CreateContainer own u)
  obtain r0 s0 where c: "createContainer pol own u s = (r0, s0)"
    by (cases "createContainer pol own u s")
  with assms(2) CreateContainer have s0: "s0 = s'" using answered_eq by fastforce
  with createContainer_frame [OF c] assms(1) CreateContainer show ?thesis
    by (auto simp: approvalsIn_def intro: productAt_sameProducts)
next
  case (UpdateContainer c u)
  obtain r0 s0 where c: "updateContainer pol c u s = (r0, s0)"
    by (cases "updateContainer pol c u s")
  with assms(2) UpdateContainer have s0: "s0 = s'" using answered_eq by fastforce
  with updateContainer_frame [OF c] assms(1) UpdateContainer show ?thesis
    by (auto simp: approvalsIn_def intro: productAt_sameProducts)
next
  case (ApproveContainer c)
  obtain r0 s0 where c: "approveContainerUpdate pol c s = (r0, s0)"
    by (cases "approveContainerUpdate pol c s")
  with assms(2) ApproveContainer have "s0 = s'" using answered_eq by fastforce
  with approveContainerUpdate_productAt [OF assms(1) c] ApproveContainer show ?thesis by simp
qed

lemma perform_containerAt:
  assumes "containerAt c n s" "perform pol x s = (r, s')"
  shows "containerAt c (n + count_list (approvalsIn pol x s) (ApproveContainer c)) s'"
proof (cases x)
  case (CreateProduct own d)
  obtain r0 s0 where c: "createProduct own d s = (r0, s0)" by (cases "createProduct own d s")
  with assms(2) CreateProduct have s0: "s0 = s'" using answered_eq by fastforce
  with createProduct_frame [OF c] assms(1) CreateProduct show ?thesis
    by (auto simp: approvalsIn_def intro: containerAt_same)
next
  case (UpdateProduct q d)
  obtain r0 s0 where c: "updateProduct q d s = (r0, s0)" by (cases "updateProduct q d s")
  with assms(2) UpdateProduct have s0: "s0 = s'" using answered_eq by fastforce
  with updateProduct_frame [OF c] assms(1) UpdateProduct show ?thesis
    by (auto simp: approvalsIn_def intro: containerAt_same)
next
  case (ApproveProduct q)
  obtain r0 s0 where c: "approveProductUpdate q s = (r0, s0)" by (cases "approveProductUpdate q s")
  with assms(2) ApproveProduct have s0: "s0 = s'" using answered_eq by fastforce
  with approveProductUpdate_frame [OF c] assms(1) ApproveProduct show ?thesis
    by (auto simp: approvalsIn_def intro: containerAt_same)
next
  case (CreateContainer own u)
  obtain r0 s0 where c: "createContainer pol own u s = (r0, s0)"
    by (cases "createContainer pol own u s")
  with assms(2) CreateContainer have s0: "s0 = s'" using answered_eq by fastforce
  from assms(1) have "c \<noteq> nextContainerId s" by (auto simp: containerAt_def)
  with createContainer_frame [OF c] assms(1) s0 CreateContainer show ?thesis
    by (auto simp: containerAt_def approvalsIn_def)
next
  case (UpdateContainer d u)
  obtain r0 s0 where c: "updateContainer pol d u s = (r0, s0)"
    by (cases "updateContainer pol d u s")
  with assms(2) UpdateContainer have s0: "s0 = s'" using answered_eq by fastforce
  with updateContainer_frame [OF c] assms(1) UpdateContainer show ?thesis
    by (auto simp: approvalsIn_def intro: containerAt_sameProducts_frame)
next
  case (ApproveContainer d)
  obtain r0 s0 where c: "approveContainerUpdate pol d s = (r0, s0)"
    by (cases "approveContainerUpdate pol d s")
  with assms(2) ApproveContainer have a: "answered (r0, s0) = (r, s')" by simp
  from answered_eq [OF a] have s0: "s0 = s'" and ok: "r = Inr True \<longleftrightarrow> (\<exists>y. r0 = Inr (Some y))"
    by simp_all
  from assms(2) ApproveContainer
  have "count_list (approvalsIn pol x s) (ApproveContainer c)
      = (if d = c \<and> r = Inr True then 1 else 0)"
    by (simp add: approvalsIn_def count_approvals_of_container
        split: policy.splits option.splits)
  with approveContainerUpdate_containerAt [OF assms(1) c] s0 ok show ?thesis by auto
qed

lemma approvals_productAt:
  "productAt p n s \<Longrightarrow> approvals pol (ApproveProduct p) ops s = (k, s') \<Longrightarrow>
   productAt p (n + k) s'"
proof (induction ops arbitrary: n s k s')
  case Nil
  then show ?case by simp
next
  case (Cons x xs)
  obtain r s1 where step: "perform pol x s = (r, s1)" by (cases "perform pol x s")
  obtain m s2 where rest: "approvals pol (ApproveProduct p) xs s1 = (m, s2)"
    by (cases "approvals pol (ApproveProduct p) xs s1")
  let ?d = "count_list (approvalsIn pol x s) (ApproveProduct p)"
  from Cons.IH [OF perform_productAt [OF Cons.prems(1) step] rest]
  have "productAt p (n + ?d + m) s2" .
  moreover from Cons.prems(2) step rest have "k = ?d + m" "s' = s2" by simp_all
  ultimately show ?case by (simp add: add.assoc)
qed

lemma approvals_containerAt:
  "containerAt c n s \<Longrightarrow> approvals pol (ApproveContainer c) ops s = (k, s') \<Longrightarrow>
   containerAt c (n + k) s'"
proof (induction ops arbitrary: n s k s')
  case Nil
  then show ?case by simp
next
  case (Cons x xs)
  obtain r s1 where step: "perform pol x s = (r, s1)" by (cases "perform pol x s")
  obtain m s2 where rest: "approvals pol (ApproveContainer c) xs s1 = (m, s2)"
    by (cases "approvals pol (ApproveContainer c) xs s1")
  let ?d = "count_list (approvalsIn pol x s) (ApproveContainer c)"
  from Cons.IH [OF perform_containerAt [OF Cons.prems(1) step] rest]
  have "containerAt c (n + ?d + m) s2" .
  moreover from Cons.prems(2) step rest have "k = ?d + m" "s' = s2" by simp_all
  ultimately show ?case by (simp add: add.assoc)
qed

lemma approvals_run: "snd (approvals pol a ops s) = run pol ops s"
proof (induction ops arbitrary: s)
  case Nil
  then show ?case by (simp add: run_def)
next
  case (Cons x xs)
  obtain r s1 where step: "perform pol x s = (r, s1)" by (cases "perform pol x s")
  obtain m s2 where rest: "approvals pol a xs s1 = (m, s2)" by (cases "approvals pol a xs s1")
  from Cons.IH [of s1] rest have "s2 = run pol xs s1" by simp
  with step rest show ?case by (simp add: run_def)
qed

lemma approveProductUpdate_step:
  assumes "productTable s p = Some b" "approveProductUpdate p s = (Inr (Some resp), s')"
  shows "revision resp = Some (nextRevision (currentRevision b))
     \<and> productTable s' p = Some (b\<lparr>currentRevision := Some (nextRevision (currentRevision b))\<rparr>)
     \<and> productRevisionTable s' (p, nextRevision (currentRevision b)) = updatedProductTable s p
     \<and> updatedProductTable s p \<noteq> None"
proof (cases rule: approveProductUpdate_cases [of s p])
  case missing
  with assms show ?thesis by simp
next
  case (denied b d old)
  with assms show ?thesis by simp
next
  case (approved b' d)
  with assms have "b' = b" "s' = approvedProduct p b d s"
    "resp = \<lparr>productId = p, revision = Some (nextRevision (currentRevision b)), body = d\<rparr>"
    by auto
  with approved(2) show ?thesis by (simp add: approvedProduct_def)
qed

lemma approveContainerUpdate_step:
  assumes "containerTable s c = Some b" "approveContainerUpdate pol c s = (Inr (Some resp), s')"
  shows "containerRevision resp = Some (nextRevision (currentRevision b))
     \<and> containerTable s' c = Some (b\<lparr>currentRevision := Some (nextRevision (currentRevision b))\<rparr>)
     \<and> containerRevisionTable s' (c, nextRevision (currentRevision b)) \<noteq> None"
proof (cases rule: approveContainerUpdate_cases [of s c pol])
  case missing
  with assms show ?thesis by simp
next
  case (unapproved b raw)
  with assms show ?thesis by simp
next
  case (rejected b raw e s1)
  with assms show ?thesis by simp
next
  case (denied b raw ids s1 old)
  with assms show ?thesis by simp
next
  case (approved b' raw ids s1)
  with assms have "b' = b" "s' = approvedContainer c b raw ids s1"
    "resp = approvedResponse pol c b raw"
    by auto
  then show ?thesis by (simp add: approvedContainer_def approvedResponse_def)
qed
lemma consistent_empty: "consistent emptyStore"
  by (simp add: consistent_def emptyStore_def)

lemma createProduct_consistent:
  assumes "consistent s" "createProduct own d s = (r, s')"
  shows "consistent s'"
proof -
  note fr = createProduct_frame [OF assms(2)]
  from assms(1) have none: "productTable s (nextProductId s) = None"
    by (simp add: consistent_def)
  show ?thesis
    unfolding consistent_def
  proof (intro conjI allI impI)
    fix p k
    assume "productRevisionTable s' (p, k) \<noteq> None"
    with fr have old: "productRevisionTable s (p, k) \<noteq> None" by simp
    with assms(1) obtain b c where b: "productTable s p = Some b" "currentRevision b = Some c"
      "1 \<le> k" "k \<le> c"
      unfolding consistent_def by blast
    with none have "p \<noteq> nextProductId s" by auto
    with fr have "productTable s' p = productTable s p" by (simp add: sameProduct_def)
    with b show "\<exists>b c. productTable s' p = Some b \<and> currentRevision b = Some c \<and> 1 \<le> k \<and> k \<le> c"
      by simp
  next
    fix p
    assume "nextProductId s' \<le> p"
    with fr have "nextProductId s \<le> p" "p \<noteq> nextProductId s" by simp_all
    with fr assms(1) show "productTable s' p = None"
      by (simp add: sameProduct_def consistent_def)
  qed
qed

lemma containersConsistent_empty: "containersConsistent emptyStore"
  by (simp add: containersConsistent_def emptyStore_def)

lemma containersConsistent_fresh:
  assumes "containersConsistent s" "containerTable s c = Some b"
  shows "containerRevisionTable s (c, nextRevision (currentRevision b)) = None"
proof (rule ccontr)
  assume "containerRevisionTable s (c, nextRevision (currentRevision b)) \<noteq> None"
  with assms obtain k where "currentRevision b = Some k" "nextRevision (currentRevision b) \<le> k"
    unfolding containersConsistent_def by fastforce
  with nextRevision_gt [of b k] show False by simp
qed

lemma containersConsistent_approved:
  assumes "containersConsistent s" "containerTable s c = Some b"
  shows "containersConsistent (approvedContainer c b raw ids s)"
  unfolding containersConsistent_def
proof (intro conjI allI impI)
  fix d r
  assume a: "containerRevisionTable (approvedContainer c b raw ids s) (d, r) \<noteq> None"
  show "\<exists>b' k. containerTable (approvedContainer c b raw ids s) d = Some b'
          \<and> currentRevision b' = Some k \<and> 1 \<le> r \<and> r \<le> k"
  proof (cases "d = c")
    case False
    with a assms(1) show ?thesis
      unfolding containersConsistent_def approvedContainer_def by simp
  next
    case True
    show ?thesis
    proof (cases "r = nextRevision (currentRevision b)")
      case True
      with \<open>d = c\<close> nextRevision_pos [of "currentRevision b"] show ?thesis
        unfolding approvedContainer_def by simp
    next
      case False
      with a \<open>d = c\<close> have "containerRevisionTable s (c, r) \<noteq> None"
        unfolding approvedContainer_def by simp
      with assms obtain k where k: "currentRevision b = Some k" "1 \<le> r" "r \<le> k"
        unfolding containersConsistent_def by fastforce
      with nextRevision_gt [of b k] \<open>d = c\<close> show ?thesis
        unfolding approvedContainer_def by simp
    qed
  qed
next
  fix d
  assume "nextContainerId (approvedContainer c b raw ids s) \<le> d"
  with assms show "containerTable (approvedContainer c b raw ids s) d = None"
    unfolding containersConsistent_def approvedContainer_def by auto
qed

lemma createContainer_consistent:
  assumes "containersConsistent s" "createContainer pol own u s = (r, s')"
  shows "containersConsistent s'"
proof -
  note fr = createContainer_frame [OF assms(2)]
  from assms(1) have none: "containerTable s (nextContainerId s) = None"
    by (simp add: containersConsistent_def)
  show ?thesis
    unfolding containersConsistent_def
  proof (intro conjI allI impI)
    fix c k
    assume "containerRevisionTable s' (c, k) \<noteq> None"
    with fr have old: "containerRevisionTable s (c, k) \<noteq> None" by simp
    with assms(1) obtain b j where b: "containerTable s c = Some b" "currentRevision b = Some j"
      "1 \<le> k" "k \<le> j"
      unfolding containersConsistent_def by blast
    with none have "c \<noteq> nextContainerId s" by auto
    with fr have "containerTable s' c = containerTable s c" by simp
    with b show "\<exists>b j. containerTable s' c = Some b \<and> currentRevision b = Some j \<and> 1 \<le> k \<and> k \<le> j"
      by simp
  next
    fix c
    assume "nextContainerId s' \<le> c"
    with fr have "nextContainerId s \<le> c" "c \<noteq> nextContainerId s" by simp_all
    with fr assms(1) show "containerTable s' c = None"
      by (simp add: containersConsistent_def)
  qed
qed

lemma updateContainer_consistent:
  assumes "containersConsistent s" "updateContainer pol c u s = (r, s')"
  shows "containersConsistent s'"
  using updateContainer_frame [OF assms(2)] assms(1)
  by (simp add: containersConsistent_def)

lemma approveContainerUpdate_consistent:
  assumes "consistent s" "containersConsistent s" "approveContainerUpdate pol c s = (r, s')"
  shows "consistent s' \<and> containersConsistent s' \<and> r \<noteq> Inl ImmutableEntity"
proof (cases rule: approveContainerUpdate_cases [of s c pol])
  case missing
  with assms show ?thesis by auto
next
  case (unapproved b raw)
  with assms show ?thesis by auto
next
  case (rejected b raw e s1)
  with assms approveProducts_consistent [OF assms(1) rejected(4)]
    approveProducts_frame [OF rejected(4)] show ?thesis
    by (auto intro: containersConsistent_same)
next
  case (denied b raw ids s1 old)
  from denied(3) have same: "sameContainers s s1"
    using approveProducts_frame by (auto simp: sameContainers_refl)
  from same assms(2) have "containersConsistent s1" by (rule containersConsistent_same)
  moreover from same denied(1) have "containerTable s1 c = Some b"
    by (simp add: sameContainers_def)
  ultimately have "containerRevisionTable s1 (c, nextRevision (currentRevision b)) = None"
    by (rule containersConsistent_fresh)
  with denied show ?thesis by simp
next
  case (approved b raw ids s1)
  from approved(3) have same: "sameContainers s s1"
    using approveProducts_frame by (auto simp: sameContainers_refl)
  have "consistent s1"
  proof (cases pol)
    case Strict
    with approved(3) assms(1) show ?thesis by simp
  next
    case Lax
    with approved(3) approveProducts_consistent [OF assms(1)] show ?thesis by simp
  qed
  then have c1: "consistent (approvedContainer c b raw ids s1)"
    using approvedContainer_sameProducts consistent_sameProducts by blast
  from same assms(2) have "containersConsistent s1" by (rule containersConsistent_same)
  moreover from same approved(1) have "containerTable s1 c = Some b"
    by (simp add: sameContainers_def)
  ultimately have "containersConsistent (approvedContainer c b raw ids s1)"
    by (rule containersConsistent_approved)
  with c1 approved assms show ?thesis by auto
qed

lemma perform_consistent:
  assumes "consistent s" "containersConsistent s" "perform pol x s = (r, s')"
  shows "consistent s' \<and> containersConsistent s' \<and> r \<noteq> Inl ImmutableEntity"
proof (cases x)
  case (CreateProduct own d)
  obtain r0 s0 where c: "createProduct own d s = (r0, s0)" by (cases "createProduct own d s")
  with assms(3) CreateProduct have a: "answered (r0, s0) = (r, s')" by simp
  from createProduct_frame [OF c] answered_eq [OF a] createProduct_consistent [OF assms(1) c]
    assms(2)
  show ?thesis by (auto intro: containersConsistent_same)
next
  case (UpdateProduct q d)
  obtain r0 s0 where c: "updateProduct q d s = (r0, s0)" by (cases "updateProduct q d s")
  with assms(3) UpdateProduct have a: "answered (r0, s0) = (r, s')" by simp
  from updateProduct_frame [OF c] answered_eq [OF a] assms(1,2)
  show ?thesis by (auto simp: consistent_def intro: containersConsistent_same)
next
  case (ApproveProduct q)
  obtain r0 s0 where c: "approveProductUpdate q s = (r0, s0)" by (cases "approveProductUpdate q s")
  with assms(3) ApproveProduct have a: "answered (r0, s0) = (r, s')" by simp
  from approveProductUpdate_consistent [OF assms(1) c] answered_eq [OF a]
    approveProductUpdate_frame [OF c] assms(2)
  show ?thesis by (auto intro: containersConsistent_same)
next
  case (CreateContainer own u)
  obtain r0 s0 where c: "createContainer pol own u s = (r0, s0)"
    by (cases "createContainer pol own u s")
  with assms(3) CreateContainer have a: "answered (r0, s0) = (r, s')" by simp
  from createContainer_frame [OF c] answered_eq [OF a] assms(1)
    createContainer_consistent [OF assms(2) c]
  show ?thesis by (auto intro: consistent_sameProducts)
next
  case (UpdateContainer c u)
  obtain r0 s0 where c: "updateContainer pol c u s = (r0, s0)"
    by (cases "updateContainer pol c u s")
  with assms(3) UpdateContainer have a: "answered (r0, s0) = (r, s')" by simp
  from updateContainer_frame [OF c] answered_eq [OF a] assms(1)
    updateContainer_consistent [OF assms(2) c]
  show ?thesis by (auto intro: consistent_sameProducts)
next
  case (ApproveContainer c)
  obtain r0 s0 where c: "approveContainerUpdate pol c s = (r0, s0)"
    by (cases "approveContainerUpdate pol c s")
  with assms(3) ApproveContainer have a: "answered (r0, s0) = (r, s')" by simp
  from approveContainerUpdate_consistent [OF assms(1,2) c] answered_eq [OF a]
  show ?thesis by auto
qed

lemma run_consistent:
  "consistent s \<Longrightarrow> containersConsistent s \<Longrightarrow>
   consistent (run pol ops s) \<and> containersConsistent (run pol ops s)"
proof (induction ops arbitrary: s)
  case Nil
  then show ?case by (simp add: run_def)
next
  case (Cons x xs)
  obtain r s1 where step: "perform pol x s = (r, s1)" by (cases "perform pol x s")
  from perform_consistent [OF Cons.prems step]
  have "consistent s1" "containersConsistent s1" by simp_all
  from Cons.IH [OF this] step show ?case by (simp add: run_def)
qed

lemma reachable_consistent:
  "consistent (run pol ops emptyStore)" "containersConsistent (run pol ops emptyStore)"
  using run_consistent [OF consistent_empty containersConsistent_empty] by simp_all

lemma approveProductUpdate_keeps:
  assumes "approveProductUpdate p s = (r, s')" "productRevisionTable s k = Some v"
  shows "productRevisionTable s' k = Some v"
proof (cases rule: approveProductUpdate_cases [of s p])
  case missing
  with assms show ?thesis by simp
next
  case (denied b d old)
  with assms show ?thesis by simp
next
  case (approved b d)
  with assms have s': "s' = approvedProduct p b d s" by simp
  show ?thesis
  proof (cases "k = (p, nextRevision (currentRevision b))")
    case True
    with approved(3) assms(2) have "v = d" by simp
    with True s' show ?thesis by (simp add: approvedProduct_def)
  next
    case False
    with s' assms(2) show ?thesis by (simp add: approvedProduct_def)
  qed
qed

lemma approveProducts_keeps:
  "approveProducts ps ids s = (r, s') \<Longrightarrow> productRevisionTable s k = Some v \<Longrightarrow>
   productRevisionTable s' k = Some v"
proof (induction ps arbitrary: ids s)
  case Nil
  then show ?case by simp
next
  case (Cons p ps)
  obtain r1 s1 where step: "approveProductUpdate p s = (r1, s1)"
    by (cases "approveProductUpdate p s")
  note k1 = approveProductUpdate_keeps [OF step Cons.prems(2)]
  show ?case
  proof (cases r1)
    case (Inl e)
    with Cons.prems step k1 show ?thesis by auto
  next
    case (Inr x)
    show ?thesis
    proof (cases x)
      case None
      with Inr Cons.prems step k1 show ?thesis by auto
    next
      case (Some up)
      with Inr Cons.prems step
      have rest: "approveProducts ps (ids @ [(productId up, revision up)]) s1 = (r, s')"
        by simp
      from Cons.IH [OF rest k1] show ?thesis .
    qed
  qed
qed


lemma approveContainerUpdate_keeps:
  assumes "approveContainerUpdate pol c s = (r, s')" "productRevisionTable s k = Some v"
  shows "productRevisionTable s' k = Some v"
proof (cases rule: approveContainerUpdate_cases [of s c pol])
  case missing
  with assms show ?thesis by simp
next
  case (unapproved b raw)
  with assms show ?thesis by simp
next
  case (rejected b raw e s1)
  with assms approveProducts_keeps [OF rejected(4) assms(2)] show ?thesis by simp
next
  case (denied b raw ids s1 old)
  have "productRevisionTable s1 k = Some v"
  proof (cases pol)
    case Strict
    with denied(3) assms(2) show ?thesis by simp
  next
    case Lax
    with denied(3) approveProducts_keeps [OF _ assms(2)] show ?thesis by simp
  qed
  with denied assms show ?thesis by simp
next
  case (approved b raw ids s1)
  have "productRevisionTable s1 k = Some v"
  proof (cases pol)
    case Strict
    with approved(3) assms(2) show ?thesis by simp
  next
    case Lax
    with approved(3) approveProducts_keeps [OF _ assms(2)] show ?thesis by simp
  qed
  with approved assms show ?thesis by (auto simp: approvedContainer_def)
qed

lemma approveContainerUpdate_keeps_revision:
  assumes "approveContainerUpdate pol c s = (r, s')" "containerRevisionTable s k = Some v"
  shows "containerRevisionTable s' k = Some v"
  using assms(1)
proof (cases rule: approveContainerUpdate_sameContainers)
  case kept
  with assms(2) show ?thesis by (simp add: sameContainers_def)
next
  case (approved b raw ids s1)
  from approved(2) assms(2) have k1: "containerRevisionTable s1 k = Some v"
    by (simp add: sameContainers_def)
  show ?thesis
  proof (cases "k = (c, nextRevision (currentRevision b))")
    case True
    with approved(3) k1
    have "v = \<lparr>revisionName = containerName raw, revisionProducts = findProductRevisions ids s1\<rparr>"
      by simp
    with True approved(4) show ?thesis by (simp add: approvedContainer_def)
  next
    case False
    with approved(4) k1 show ?thesis by (simp add: approvedContainer_def)
  qed
qed

lemma perform_keeps:
  assumes "perform pol x s = (r, s')"
  shows "(productRevisionTable s k = Some v \<longrightarrow> productRevisionTable s' k = Some v)
     \<and> (containerRevisionTable s k = Some w \<longrightarrow> containerRevisionTable s' k = Some w)"
proof (cases x)
  case (CreateProduct own d)
  obtain r0 s0 where c: "createProduct own d s = (r0, s0)" by (cases "createProduct own d s")
  with assms CreateProduct have a: "answered (r0, s0) = (r, s')" by simp
  from createProduct_frame [OF c] answered_eq [OF a] show ?thesis
    by (cases k) (auto simp: sameContainers_def)
next
  case (UpdateProduct q d)
  obtain r0 s0 where c: "updateProduct q d s = (r0, s0)" by (cases "updateProduct q d s")
  with assms UpdateProduct have a: "answered (r0, s0) = (r, s')" by simp
  from updateProduct_frame [OF c] answered_eq [OF a] show ?thesis
    by (auto simp: sameContainers_def)
next
  case (ApproveProduct q)
  obtain r0 s0 where c: "approveProductUpdate q s = (r0, s0)" by (cases "approveProductUpdate q s")
  with assms ApproveProduct have a: "answered (r0, s0) = (r, s')" by simp
  from approveProductUpdate_keeps [OF c] approveProductUpdate_frame [OF c] answered_eq [OF a]
  show ?thesis by (auto simp: sameContainers_def)
next
  case (CreateContainer own u)
  obtain r0 s0 where c: "createContainer pol own u s = (r0, s0)"
    by (cases "createContainer pol own u s")
  with assms CreateContainer have a: "answered (r0, s0) = (r, s')" by simp
  from createContainer_frame [OF c] answered_eq [OF a]
  show ?thesis by (auto simp: sameProducts_def)
next
  case (UpdateContainer c u)
  obtain r0 s0 where c: "updateContainer pol c u s = (r0, s0)"
    by (cases "updateContainer pol c u s")
  with assms UpdateContainer have a: "answered (r0, s0) = (r, s')" by simp
  from updateContainer_frame [OF c] answered_eq [OF a]
  show ?thesis by (auto simp: sameProducts_def)
next
  case (ApproveContainer c)
  obtain r0 s0 where c: "approveContainerUpdate pol c s = (r0, s0)"
    by (cases "approveContainerUpdate pol c s")
  with assms ApproveContainer have a: "answered (r0, s0) = (r, s')" by simp
  from approveContainerUpdate_keeps [OF c] approveContainerUpdate_keeps_revision [OF c]
    answered_eq [OF a]
  show ?thesis by auto
qed

lemma approveProducts_succeeds:
  assumes "consistent s" "distinct ps"
    "\<forall>p \<in> set ps. productTable s p \<noteq> None \<and> updatedProductTable s p \<noteq> None"
  shows "\<exists>ids' s'. approveProducts ps ids s = (Inr ids', s') \<and> consistent s'
     \<and> (\<forall>q b d. q \<in> set ps \<and> productTable s q = Some b \<and> updatedProductTable s q = Some d \<longrightarrow>
           (q, Some (nextRevision (currentRevision b))) \<in> set ids'
         \<and> productRevisionTable s' (q, nextRevision (currentRevision b)) = Some d
         \<and> productTable s' q = Some (b\<lparr>currentRevision := Some (nextRevision (currentRevision b))\<rparr>)
         \<and> updatedProductTable s' q = None)"
  using assms
proof (induction ps arbitrary: s ids)
  case Nil
  then show ?case by simp
next
  case (Cons p ps)
  from Cons.prems(3) obtain bp dp where bp: "productTable s p = Some bp"
    and dp: "updatedProductTable s p = Some dp" by auto
  let ?n = "nextRevision (currentRevision bp)"
  let ?s1 = "approvedProduct p bp dp s"
  have step: "approveProductUpdate p s
      = (Inr (Some \<lparr>productId = p, revision = Some ?n, body = dp\<rparr>), ?s1)"
    using bp dp consistent_fresh [OF Cons.prems(1) bp] by (rule approveProductUpdate_fresh)
  have c1: "consistent ?s1"
    using Cons.prems(1) bp by (rule consistent_approved)
  from Cons.prems(2) have notin: "p \<notin> set ps" and dist: "distinct ps" by simp_all
  have same: "productTable ?s1 q = productTable s q \<and> updatedProductTable ?s1 q = updatedProductTable s q"
    if "q \<in> set ps" for q
    using that notin by (auto simp: approvedProduct_def)
  with Cons.prems(3)
  have all1: "\<forall>q \<in> set ps. productTable ?s1 q \<noteq> None \<and> updatedProductTable ?s1 q \<noteq> None"
    by simp
  from Cons.IH [OF c1 dist all1, of "ids @ [(p, Some ?n)]"]
  obtain ids' s' where rest: "approveProducts ps (ids @ [(p, Some ?n)]) ?s1 = (Inr ids', s')"
    and c': "consistent s'"
    and each: "\<And>q b d. q \<in> set ps \<Longrightarrow> productTable ?s1 q = Some b \<Longrightarrow>
          updatedProductTable ?s1 q = Some d \<Longrightarrow>
           (q, Some (nextRevision (currentRevision b))) \<in> set ids'
         \<and> productRevisionTable s' (q, nextRevision (currentRevision b)) = Some d
         \<and> productTable s' q = Some (b\<lparr>currentRevision := Some (nextRevision (currentRevision b))\<rparr>)
         \<and> updatedProductTable s' q = None"
    by blast
  from step rest have whole: "approveProducts (p # ps) ids s = (Inr ids', s')" by simp
  note fr = approveProducts_frame [OF rest]
  from fr notin have sp: "sameProduct p ?s1 s'" by blast
  from fr have sub: "(p, Some ?n) \<in> set ids'" by auto
  have first: "(p, Some ?n) \<in> set ids'
         \<and> productRevisionTable s' (p, ?n) = Some dp
         \<and> productTable s' p = Some (bp\<lparr>currentRevision := Some ?n\<rparr>)
         \<and> updatedProductTable s' p = None"
    using sub sp by (simp add: sameProduct_def approvedProduct_def)
  have "(q, Some (nextRevision (currentRevision b))) \<in> set ids'
         \<and> productRevisionTable s' (q, nextRevision (currentRevision b)) = Some d
         \<and> productTable s' q = Some (b\<lparr>currentRevision := Some (nextRevision (currentRevision b))\<rparr>)
         \<and> updatedProductTable s' q = None"
    if q: "q \<in> set (p # ps)" "productTable s q = Some b" "updatedProductTable s q = Some d" for q b d
  proof (cases "q = p")
    case True
    with q bp dp first show ?thesis by simp
  next
    case False
    with q have "q \<in> set ps" by simp
    with q same [of q] each [of q b d] show ?thesis by simp
  qed
  with whole c' show ?case by blast
qed

lemma findProductRevisions_mem:
  "(p, Some r) \<in> set ids \<Longrightarrow> productRevisionTable s (p, r) \<noteq> None \<Longrightarrow>
   (p, r) \<in> set (findProductRevisions ids s)"
  by (force simp: findProductRevisions_def)

lemma existing_ids:
  "set (map fst (concat (map (\<lambda>p. case productTable s p of
                                        None \<Rightarrow> []
                                      | Some base \<Rightarrow> [(p, currentRevision base)]) xs)))
     = {p \<in> set xs. productTable s p \<noteq> None}"
  by (induction xs) (auto split: option.splits)

lemma draftProductIds_fst:
  "set (map fst (draftProductIds raw s)) = {p \<in> set (products raw). productTable s p \<noteq> None}"
  unfolding draftProductIds_def by (rule existing_ids)

lemma findUpdatedProducts_set:
  "set (findUpdatedProducts (draftProductIds raw s) s)
     = {p \<in> set (products raw). productTable s p \<noteq> None \<and> updatedProductTable s p \<noteq> None}"
  unfolding findUpdatedProducts_def using draftProductIds_fst [of raw s] by auto

lemma findUpdatedProducts_distinct: "distinct (findUpdatedProducts ids s)"
  by (simp add: findUpdatedProducts_def)


text \<open>
  An approval of the later version creates the revision when no listed product has a draft
  and the key of the revision is unused.
\<close>

lemma approveContainerUpdate_strict_fresh:
  assumes "containerTable s c = Some b" "updatedContainerTable s c = Some raw"
    "\<forall>q \<in> set (products raw). updatedProductTable s q = None"
    "containerRevisionTable s (c, nextRevision (currentRevision b)) = None"
  shows "approveContainerUpdate Strict c s =
     (Inr (Some (approvedResponse Strict c b raw)),
      approvedContainer c b raw (draftProductIds raw s) s)"
proof -
  from assms(3) have "set (findUpdatedProducts (draftProductIds raw s) s) = {}"
    unfolding findUpdatedProducts_set by auto
  then have "findUpdatedProducts (draftProductIds raw s) s = []" by simp
  with assms(1,2) createContainerRevision_fresh [of s c b raw "draftProductIds raw s" Strict] assms(4)
  show ?thesis by (simp add: approveContainerUpdate_def)
qed

text \<open>
  An approval of the earlier version, in a store where every revision belongs to an approved
  base: the listed products with a draft are approved, then the revision is created.
\<close>

lemma approveContainerUpdate_lax_succeeds:
  assumes "consistent s" "containersConsistent s"
    "containerTable s c = Some cb" "updatedContainerTable s c = Some raw"
  shows "\<exists>ids s1. approveProducts (findUpdatedProducts (draftProductIds raw s) s)
                      (draftProductIds raw s) s = (Inr ids, s1)
     \<and> sameContainers s s1
     \<and> approveContainerUpdate Lax c s =
         (Inr (Some (approvedResponse Lax c cb raw)), approvedContainer c cb raw ids s1)
     \<and> (\<forall>q b d. q \<in> set (products raw) \<and> productTable s q = Some b
            \<and> updatedProductTable s q = Some d \<longrightarrow>
           (q, Some (nextRevision (currentRevision b))) \<in> set ids
         \<and> productRevisionTable s1 (q, nextRevision (currentRevision b)) = Some d
         \<and> productTable s1 q = Some (b\<lparr>currentRevision := Some (nextRevision (currentRevision b))\<rparr>)
         \<and> updatedProductTable s1 q = None)"
proof -
  let ?ids = "draftProductIds raw s"
  let ?ups = "findUpdatedProducts ?ids s"
  have all: "\<forall>p \<in> set ?ups. productTable s p \<noteq> None \<and> updatedProductTable s p \<noteq> None"
    by (simp add: findUpdatedProducts_set)
  from approveProducts_succeeds [OF assms(1) findUpdatedProducts_distinct all, of ?ids]
  obtain ids s1 where ap: "approveProducts ?ups ?ids s = (Inr ids, s1)"
    and each: "\<And>q b d. q \<in> set ?ups \<Longrightarrow> productTable s q = Some b \<Longrightarrow>
          updatedProductTable s q = Some d \<Longrightarrow>
           (q, Some (nextRevision (currentRevision b))) \<in> set ids
         \<and> productRevisionTable s1 (q, nextRevision (currentRevision b)) = Some d
         \<and> productTable s1 q = Some (b\<lparr>currentRevision := Some (nextRevision (currentRevision b))\<rparr>)
         \<and> updatedProductTable s1 q = None"
    by blast
  from approveProducts_frame [OF ap] have same: "sameContainers s s1" by simp
  from same assms(2) have "containersConsistent s1" by (rule containersConsistent_same)
  moreover from same assms(3) have "containerTable s1 c = Some cb"
    by (simp add: sameContainers_def)
  ultimately have "containerRevisionTable s1 (c, nextRevision (currentRevision cb)) = None"
    by (rule containersConsistent_fresh)
  with assms(3,4) ap createContainerRevision_fresh [of s1 c cb raw ids Lax]
  have res: "approveContainerUpdate Lax c s =
         (Inr (Some (approvedResponse Lax c cb raw)), approvedContainer c cb raw ids s1)"
    by (simp add: approveContainerUpdate_def)
  have "(q, Some (nextRevision (currentRevision b))) \<in> set ids
         \<and> productRevisionTable s1 (q, nextRevision (currentRevision b)) = Some d
         \<and> productTable s1 q = Some (b\<lparr>currentRevision := Some (nextRevision (currentRevision b))\<rparr>)
         \<and> updatedProductTable s1 q = None"
    if "q \<in> set (products raw)" "productTable s q = Some b" "updatedProductTable s q = Some d"
    for q b d
  proof -
    from that have "q \<in> set ?ups" by (simp add: findUpdatedProducts_set)
    from each [OF this that(2,3)] show ?thesis .
  qed
  with ap same res show ?thesis by blast
qed

text \<open>
  C4. Take a product created by the service that has no revision yet, and any run of public
  operations, in either version of the container service. When \<open>n\<close> approvals of that
  product returned a response in the run, those made by container approvals of the earlier
  version included, the product's \<open>currentRevision\<close> is \<open>n\<close> afterwards (absent for \<open>n = 0\<close>)
  and the revision rows stored for it are exactly those numbered 1 to \<open>n\<close>. The same holds
  for a container and the approvals of that container.

  Every approval creates its revision. With a base \<open>b\<close>, a draft \<open>d\<close> and the key of the next
  revision unused, \<open>approveProductUpdate\<close> returns the response of revision
  \<open>currentRevision + 1\<close> (1 when \<open>currentRevision\<close> is absent) and leaves
  \<open>approvedProduct p b d s\<close>: the draft stored under that number, \<open>currentRevision\<close> set to it
  and the draft deleted. The later version of \<open>approveContainerUpdate\<close> does the same for a
  container none of whose listed products has a draft, and leaves \<open>approvedContainer\<close>. In a
  store reached from the empty store the earlier version approves every container that
  has a draft, after it has approved the listed products that have one. In such a store
  the key of the next revision is always unused. Whenever an approval returns a response,
  the revision it names is \<open>currentRevision + 1\<close> and \<open>currentRevision\<close> is set to it.
\<close>

theorem approvals_number_revisions:
  "(p < nextProductId s \<and> productTable s p = Some b \<and> currentRevision b = None
      \<and> (\<forall>r. productRevisionTable s (p, r) = None)
      \<and> approvals pol (ApproveProduct p) ops s = (n, s')
    \<longrightarrow> s' = run pol ops s
        \<and> (\<exists>b'. productTable s' p = Some b'
               \<and> currentRevision b' = (if n = 0 then None else Some n))
        \<and> {r. productRevisionTable s' (p, r) \<noteq> None} = {1..n})
   \<and> (c < nextContainerId t \<and> containerTable t c = Some cb \<and> currentRevision cb = None
      \<and> (\<forall>r. containerRevisionTable t (c, r) = None)
      \<and> approvals pol (ApproveContainer c) ops t = (m, t')
    \<longrightarrow> t' = run pol ops t
        \<and> (\<exists>b'. containerTable t' c = Some b'
               \<and> currentRevision b' = (if m = 0 then None else Some m))
        \<and> {r. containerRevisionTable t' (c, r) \<noteq> None} = {1..m})
   \<and> (productTable s p = Some b \<and> updatedProductTable s p = Some d
      \<and> productRevisionTable s (p, nextRevision (currentRevision b)) = None
    \<longrightarrow> approveProductUpdate p s
          = (Inr (Some \<lparr>productId = p, revision = Some (nextRevision (currentRevision b)),
                         body = d\<rparr>),
             approvedProduct p b d s))
   \<and> (containerTable t c = Some cb \<and> updatedContainerTable t c = Some raw
      \<and> (\<forall>q \<in> set (products raw). updatedProductTable t q = None)
      \<and> containerRevisionTable t (c, nextRevision (currentRevision cb)) = None
    \<longrightarrow> approveContainerUpdate Strict c t
          = (Inr (Some \<lparr>containerId = Some c,
                         containerRevision = Some (nextRevision (currentRevision cb)),
                         responseName = Some (containerName raw)\<rparr>),
             approvedContainer c cb raw (draftProductIds raw t) t))
   \<and> (containerTable (run pol ops emptyStore) c = Some cb
      \<and> updatedContainerTable (run pol ops emptyStore) c = Some raw
    \<longrightarrow> (\<exists>resp u.
           approveContainerUpdate Lax c (run pol ops emptyStore) = (Inr (Some resp), u)
         \<and> containerRevision resp = Some (nextRevision (currentRevision cb))
         \<and> containerTable u c
              = Some (cb\<lparr>currentRevision := Some (nextRevision (currentRevision cb))\<rparr>)
         \<and> (\<exists>row. containerRevisionTable u (c, nextRevision (currentRevision cb)) = Some row
                \<and> revisionName row = containerName raw)
         \<and> updatedContainerTable u c = None
         \<and> (\<forall>q qb qd. q \<in> set (products raw)
                \<and> productTable (run pol ops emptyStore) q = Some qb
                \<and> updatedProductTable (run pol ops emptyStore) q = Some qd \<longrightarrow>
                productTable u q
                  = Some (qb\<lparr>currentRevision := Some (nextRevision (currentRevision qb))\<rparr>)
              \<and> productRevisionTable u (q, nextRevision (currentRevision qb)) = Some qd
              \<and> updatedProductTable u q = None)))
   \<and> (productTable (run pol ops emptyStore) p = Some b
    \<longrightarrow> productRevisionTable (run pol ops emptyStore) (p, nextRevision (currentRevision b)) = None)
   \<and> (containerTable (run pol ops emptyStore) c = Some cb
    \<longrightarrow> containerRevisionTable (run pol ops emptyStore) (c, nextRevision (currentRevision cb))
          = None)
   \<and> (productTable s p = Some b \<and> approveProductUpdate p s = (Inr (Some resp), s')
    \<longrightarrow> revision resp = Some (nextRevision (currentRevision b))
        \<and> productTable s' p = Some (b\<lparr>currentRevision := Some (nextRevision (currentRevision b))\<rparr>)
        \<and> productRevisionTable s' (p, nextRevision (currentRevision b)) \<noteq> None)
   \<and> (containerTable t c = Some cb \<and> approveContainerUpdate pol c t = (Inr (Some cresp), t')
    \<longrightarrow> containerRevision cresp = Some (nextRevision (currentRevision cb))
        \<and> containerTable t' c = Some (cb\<lparr>currentRevision := Some (nextRevision (currentRevision cb))\<rparr>)
        \<and> containerRevisionTable t' (c, nextRevision (currentRevision cb)) \<noteq> None)
   \<and> nextRevision None = 1 \<and> nextRevision (Some k) = k + 1"
proof (intro conjI impI)
  assume a: "p < nextProductId s \<and> productTable s p = Some b \<and> currentRevision b = None
      \<and> (\<forall>r. productRevisionTable s (p, r) = None)
      \<and> approvals pol (ApproveProduct p) ops s = (n, s')"
  then have "productAt p 0 s" by (simp add: productAt_def)
  with a have at: "productAt p (0 + n) s'" by (intro approvals_productAt) auto
  from a approvals_run [of pol "ApproveProduct p" ops s] show "s' = run pol ops s" by simp
  from at show "\<exists>b'. productTable s' p = Some b' \<and> currentRevision b' = (if n = 0 then None else Some n)"
    by (simp add: productAt_def)
  from at show "{r. productRevisionTable s' (p, r) \<noteq> None} = {1..n}"
    by (auto simp: productAt_def)
next
  assume a: "c < nextContainerId t \<and> containerTable t c = Some cb \<and> currentRevision cb = None
      \<and> (\<forall>r. containerRevisionTable t (c, r) = None)
      \<and> approvals pol (ApproveContainer c) ops t = (m, t')"
  then have "containerAt c 0 t" by (simp add: containerAt_def)
  with a have at: "containerAt c (0 + m) t'" by (intro approvals_containerAt) auto
  from a approvals_run [of pol "ApproveContainer c" ops t] show "t' = run pol ops t" by simp
  from at show "\<exists>b'. containerTable t' c = Some b' \<and> currentRevision b' = (if m = 0 then None else Some m)"
    by (simp add: containerAt_def)
  from at show "{r. containerRevisionTable t' (c, r) \<noteq> None} = {1..m}"
    by (auto simp: containerAt_def)
next
  assume "productTable s p = Some b \<and> updatedProductTable s p = Some d
      \<and> productRevisionTable s (p, nextRevision (currentRevision b)) = None"
  then show "approveProductUpdate p s
          = (Inr (Some \<lparr>productId = p, revision = Some (nextRevision (currentRevision b)),
                         body = d\<rparr>),
             approvedProduct p b d s)"
    by (intro approveProductUpdate_fresh) simp_all
next
  assume "containerTable t c = Some cb \<and> updatedContainerTable t c = Some raw
      \<and> (\<forall>q \<in> set (products raw). updatedProductTable t q = None)
      \<and> containerRevisionTable t (c, nextRevision (currentRevision cb)) = None"
  then have "approveContainerUpdate Strict c t =
     (Inr (Some (approvedResponse Strict c cb raw)),
      approvedContainer c cb raw (draftProductIds raw t) t)"
    by (intro approveContainerUpdate_strict_fresh) simp_all
  then show "approveContainerUpdate Strict c t
          = (Inr (Some \<lparr>containerId = Some c,
                         containerRevision = Some (nextRevision (currentRevision cb)),
                         responseName = Some (containerName raw)\<rparr>),
             approvedContainer c cb raw (draftProductIds raw t) t)"
    by (simp add: approvedResponse_def)
next
  let ?S = "run pol ops emptyStore"
  assume a: "containerTable ?S c = Some cb \<and> updatedContainerTable ?S c = Some raw"
  then have cb: "containerTable ?S c = Some cb" and raw: "updatedContainerTable ?S c = Some raw"
    by simp_all
  from approveContainerUpdate_lax_succeeds [OF reachable_consistent cb raw]
  obtain ids s1 where same: "sameContainers ?S s1"
    and res: "approveContainerUpdate Lax c ?S =
         (Inr (Some (approvedResponse Lax c cb raw)), approvedContainer c cb raw ids s1)"
    and each: "\<And>q b d. q \<in> set (products raw) \<Longrightarrow> productTable ?S q = Some b \<Longrightarrow>
            updatedProductTable ?S q = Some d \<Longrightarrow>
           productRevisionTable s1 (q, nextRevision (currentRevision b)) = Some d
         \<and> productTable s1 q = Some (b\<lparr>currentRevision := Some (nextRevision (currentRevision b))\<rparr>)
         \<and> updatedProductTable s1 q = None"
    by blast
  let ?u = "approvedContainer c cb raw ids s1"
  have "containerRevision (approvedResponse Lax c cb raw) = Some (nextRevision (currentRevision cb))"
    by (simp add: approvedResponse_def)
  moreover have "containerTable ?u c
              = Some (cb\<lparr>currentRevision := Some (nextRevision (currentRevision cb))\<rparr>)"
    "\<exists>row. containerRevisionTable ?u (c, nextRevision (currentRevision cb)) = Some row
                \<and> revisionName row = containerName raw"
    "updatedContainerTable ?u c = None"
    by (simp_all add: approvedContainer_def)
  moreover have "\<forall>q qb qd. q \<in> set (products raw)
                \<and> productTable ?S q = Some qb \<and> updatedProductTable ?S q = Some qd \<longrightarrow>
                productTable ?u q
                  = Some (qb\<lparr>currentRevision := Some (nextRevision (currentRevision qb))\<rparr>)
              \<and> productRevisionTable ?u (q, nextRevision (currentRevision qb)) = Some qd
              \<and> updatedProductTable ?u q = None"
    using each by (simp add: approvedContainer_def)
  ultimately show "\<exists>resp u.
           approveContainerUpdate Lax c ?S = (Inr (Some resp), u)
         \<and> containerRevision resp = Some (nextRevision (currentRevision cb))
         \<and> containerTable u c
              = Some (cb\<lparr>currentRevision := Some (nextRevision (currentRevision cb))\<rparr>)
         \<and> (\<exists>row. containerRevisionTable u (c, nextRevision (currentRevision cb)) = Some row
                \<and> revisionName row = containerName raw)
         \<and> updatedContainerTable u c = None
         \<and> (\<forall>q qb qd. q \<in> set (products raw)
                \<and> productTable ?S q = Some qb \<and> updatedProductTable ?S q = Some qd \<longrightarrow>
                productTable u q
                  = Some (qb\<lparr>currentRevision := Some (nextRevision (currentRevision qb))\<rparr>)
              \<and> productRevisionTable u (q, nextRevision (currentRevision qb)) = Some qd
              \<and> updatedProductTable u q = None)"
    using res by blast
next
  assume "productTable (run pol ops emptyStore) p = Some b"
  with reachable_consistent(1)
  show "productRevisionTable (run pol ops emptyStore) (p, nextRevision (currentRevision b)) = None"
    by (rule consistent_fresh)
next
  assume "containerTable (run pol ops emptyStore) c = Some cb"
  with reachable_consistent(2)
  show "containerRevisionTable (run pol ops emptyStore) (c, nextRevision (currentRevision cb)) = None"
    by (rule containersConsistent_fresh)
next
  assume a: "productTable s p = Some b \<and> approveProductUpdate p s = (Inr (Some resp), s')"
  then have st: "revision resp = Some (nextRevision (currentRevision b))
     \<and> productTable s' p = Some (b\<lparr>currentRevision := Some (nextRevision (currentRevision b))\<rparr>)
     \<and> productRevisionTable s' (p, nextRevision (currentRevision b)) = updatedProductTable s p
     \<and> updatedProductTable s p \<noteq> None"
    by (intro approveProductUpdate_step) auto
  from st show "revision resp = Some (nextRevision (currentRevision b))" by simp
  from st show "productTable s' p = Some (b\<lparr>currentRevision := Some (nextRevision (currentRevision b))\<rparr>)"
    by simp
  from st show "productRevisionTable s' (p, nextRevision (currentRevision b)) \<noteq> None" by simp
next
  assume a: "containerTable t c = Some cb \<and> approveContainerUpdate pol c t = (Inr (Some cresp), t')"
  then have st: "containerRevision cresp = Some (nextRevision (currentRevision cb))
     \<and> containerTable t' c = Some (cb\<lparr>currentRevision := Some (nextRevision (currentRevision cb))\<rparr>)
     \<and> containerRevisionTable t' (c, nextRevision (currentRevision cb)) \<noteq> None"
    by (intro approveContainerUpdate_step) auto
  from st show "containerRevision cresp = Some (nextRevision (currentRevision cb))" by simp
  from st show "containerTable t' c = Some (cb\<lparr>currentRevision := Some (nextRevision (currentRevision cb))\<rparr>)"
    by simp
  from st show "containerRevisionTable t' (c, nextRevision (currentRevision cb)) \<noteq> None" by simp
next
  show "nextRevision None = 1" by (simp add: nextRevision_def)
  show "nextRevision (Some k) = k + 1" by (simp add: nextRevision_def)
qed

theorem approvals_number_revisions_witness:
  "fst (approvals Lax (ApproveProduct 1) cascadeRun draftedStore) = 2
   \<and> {r. productRevisionTable (run Lax cascadeRun draftedStore) (1, r) \<noteq> None} = {1..2}
   \<and> fst (approvals Lax (ApproveContainer 1) cascadeRun draftedStore) = 2
   \<and> {r. containerRevisionTable (run Lax cascadeRun draftedStore) (1, r) \<noteq> None} = {1..2}
   \<and> fst (approvals Strict (ApproveProduct 1) containerRun draftedStore) = 1
   \<and> {r. productRevisionTable (run Strict containerRun draftedStore) (1, r) \<noteq> None} = {1..1}
   \<and> fst (approvals Strict (ApproveContainer 1) containerRun draftedStore) = 2
   \<and> {r. containerRevisionTable (run Strict containerRun draftedStore) (1, r) \<noteq> None} = {1..2}
   \<and> approveProductUpdate 1 draftedStore
       = (Inr (Some \<lparr>productId = 1, revision = Some 1, body = cola\<rparr>), stockedStore)
   \<and> approveContainerUpdate Strict 1 stockedStore
       = (Inr (Some \<lparr>containerId = Some 1, containerRevision = Some 1,
                      responseName = Some ''fridge''\<rparr>),
          stockedStore\<lparr>containerRevisionTable :=
                         [(1, 1) \<mapsto> \<lparr>revisionName = ''fridge'', revisionProducts = [(1, 1)]\<rparr>],
                       containerTable := [1 \<mapsto> \<lparr>owner = 7, currentRevision = Some 1, public = True\<rparr>],
                       updatedContainerTable := Map.empty\<rparr>)
   \<and> run Lax setupRun emptyStore = draftedStore
   \<and> fst (approveContainerUpdate Lax 1 draftedStore)
       = Inr (Some \<lparr>containerId = Some 1, containerRevision = Some 1,
                     responseName = Some ''fridge''\<rparr>)
   \<and> containerTable (snd (approveContainerUpdate Lax 1 draftedStore)) 1
       = Some \<lparr>owner = 7, currentRevision = Some 1, public = True\<rparr>
   \<and> productTable (snd (approveContainerUpdate Lax 1 draftedStore)) 1
       = Some \<lparr>owner = 7, currentRevision = Some 1\<rparr>
   \<and> productRevisionTable (snd (approveContainerUpdate Lax 1 draftedStore)) (1, 1) = Some cola"
proof -
  let ?pb = "\<lparr>owner = 7, currentRevision = None\<rparr>"
  let ?cb = "\<lparr>owner = 7, currentRevision = None, public = True\<rparr>"
  let ?raw = "\<lparr>containerName = ''fridge'', products = [1]\<rparr>"
  let ?s1 = "run Lax cascadeRun draftedStore"
  let ?s2 = "run Lax cascadeRun draftedStore"
  let ?s3 = "run Strict containerRun draftedStore"
  let ?s4 = "run Strict containerRun draftedStore"
  note defs = draftedStore_def stockedStore_def answered_def approveProductUpdate_def
    updateProduct_def getUpdatedProduct_def getProduct_def saveProductRevision_def
    nextRevision_def Let_def cola_def beer_def approveContainerUpdate_def updateContainer_def
    getContainer_def getUpdatedContainer_def getProductsResponse_def
    createContainerRevision_def saveContainerRevision_def draftProductIds_def
    findUpdatedProducts_def findProductRevisions_def approvalsIn_def
  have n1: "fst (approvals Lax (ApproveProduct 1) cascadeRun draftedStore) = 2"
    by (simp add: cascadeRun_def defs)
  have n2: "fst (approvals Lax (ApproveContainer 1) cascadeRun draftedStore) = 2"
    by (simp add: cascadeRun_def defs)
  have n3: "fst (approvals Strict (ApproveProduct 1) containerRun draftedStore) = 1"
    by (simp add: containerRun_def defs)
  have n4: "fst (approvals Strict (ApproveContainer 1) containerRun draftedStore) = 2"
    by (simp add: containerRun_def defs)
  have hp: "1 < nextProductId draftedStore \<and> productTable draftedStore 1 = Some ?pb
      \<and> currentRevision ?pb = None \<and> (\<forall>r. productRevisionTable draftedStore (1, r) = None)"
    by (simp add: draftedStore_def)
  have hc: "1 < nextContainerId draftedStore \<and> containerTable draftedStore 1 = Some ?cb
      \<and> currentRevision ?cb = None \<and> (\<forall>r. containerRevisionTable draftedStore (1, r) = None)"
    by (simp add: draftedStore_def)
  have h1: "1 < nextProductId draftedStore \<and> productTable draftedStore 1 = Some ?pb
      \<and> currentRevision ?pb = None \<and> (\<forall>r. productRevisionTable draftedStore (1, r) = None)
      \<and> approvals Lax (ApproveProduct 1) cascadeRun draftedStore = (2, ?s1)"
    using hp n1 approvals_run [of Lax "ApproveProduct 1" cascadeRun draftedStore] by (simp add: prod_eq_iff)
  have c1: "{r. productRevisionTable (run Lax cascadeRun draftedStore) (1, r) \<noteq> None} = {1..2}"
    using approvals_number_revisions [THEN conjunct1, THEN mp, OF h1] by simp
  have h2: "1 < nextContainerId draftedStore \<and> containerTable draftedStore 1 = Some ?cb
      \<and> currentRevision ?cb = None \<and> (\<forall>r. containerRevisionTable draftedStore (1, r) = None)
      \<and> approvals Lax (ApproveContainer 1) cascadeRun draftedStore = (2, ?s2)"
    using hc n2 approvals_run [of Lax "ApproveContainer 1" cascadeRun draftedStore] by (simp add: prod_eq_iff)
  have c2: "{r. containerRevisionTable (run Lax cascadeRun draftedStore) (1, r) \<noteq> None} = {1..2}"
    using approvals_number_revisions [THEN conjunct2, THEN conjunct1, THEN mp, OF h2] by simp
  have h3: "1 < nextProductId draftedStore \<and> productTable draftedStore 1 = Some ?pb
      \<and> currentRevision ?pb = None \<and> (\<forall>r. productRevisionTable draftedStore (1, r) = None)
      \<and> approvals Strict (ApproveProduct 1) containerRun draftedStore = (1, ?s3)"
    using hp n3 approvals_run [of Strict "ApproveProduct 1" containerRun draftedStore] by (simp add: prod_eq_iff)
  have c3: "{r. productRevisionTable (run Strict containerRun draftedStore) (1, r) \<noteq> None} = {1..1}"
    using approvals_number_revisions [THEN conjunct1, THEN mp, OF h3] by simp
  have h4: "1 < nextContainerId draftedStore \<and> containerTable draftedStore 1 = Some ?cb
      \<and> currentRevision ?cb = None \<and> (\<forall>r. containerRevisionTable draftedStore (1, r) = None)
      \<and> approvals Strict (ApproveContainer 1) containerRun draftedStore = (2, ?s4)"
    using hc n4 approvals_run [of Strict "ApproveContainer 1" containerRun draftedStore] by (simp add: prod_eq_iff)
  have c4: "{r. containerRevisionTable (run Strict containerRun draftedStore) (1, r) \<noteq> None} = {1..2}"
    using approvals_number_revisions [THEN conjunct2, THEN conjunct1, THEN mp, OF h4] by simp
  have h5: "productTable draftedStore 1 = Some ?pb \<and> updatedProductTable draftedStore 1 = Some cola
      \<and> productRevisionTable draftedStore (1, nextRevision (currentRevision ?pb)) = None"
    by (simp add: draftedStore_def)
  have c5: "approveProductUpdate 1 draftedStore
       = (Inr (Some \<lparr>productId = 1, revision = Some 1, body = cola\<rparr>), stockedStore)"
    using approvals_number_revisions [THEN conjunct2, THEN conjunct2, THEN conjunct1, THEN mp, OF h5]
    by (simp add: nextRevision_def approvedProduct_def stockedStore_def draftedStore_def)
  have h6: "containerTable stockedStore 1 = Some ?cb \<and> updatedContainerTable stockedStore 1 = Some ?raw
      \<and> (\<forall>q \<in> set (products ?raw). updatedProductTable stockedStore q = None)
      \<and> containerRevisionTable stockedStore (1, nextRevision (currentRevision ?cb)) = None"
    by (simp add: stockedStore_def draftedStore_def)
  have c6: "approveContainerUpdate Strict 1 stockedStore
       = (Inr (Some \<lparr>containerId = Some 1, containerRevision = Some 1,
                      responseName = Some ''fridge''\<rparr>),
          stockedStore\<lparr>containerRevisionTable :=
                         [(1, 1) \<mapsto> \<lparr>revisionName = ''fridge'', revisionProducts = [(1, 1)]\<rparr>],
                       containerTable := [1 \<mapsto> \<lparr>owner = 7, currentRevision = Some 1, public = True\<rparr>],
                       updatedContainerTable := Map.empty\<rparr>)"
    using approvals_number_revisions [THEN conjunct2, THEN conjunct2, THEN conjunct2,
        THEN conjunct1, THEN mp, OF h6]
    by (simp add: nextRevision_def approvedContainer_def stockedStore_def draftedStore_def
        draftProductIds_def findProductRevisions_def)
  have eq: "run Lax setupRun emptyStore = draftedStore"
    by (simp add: run_def setupRun_def draftedStore_def answered_def createContainer_def
        createProduct_def emptyStore_def updateContainer_def getUpdatedProduct_def
        getUpdatedContainer_def getProductsResponse_def Let_def)
  have h7: "containerTable (run Lax setupRun emptyStore) 1 = Some ?cb
      \<and> updatedContainerTable (run Lax setupRun emptyStore) 1 = Some ?raw"
    unfolding eq by (simp add: draftedStore_def)
  from approvals_number_revisions [THEN conjunct2, THEN conjunct2, THEN conjunct2,
        THEN conjunct2, THEN conjunct1, THEN mp, OF h7, unfolded eq]
  obtain resp u where lax: "approveContainerUpdate Lax 1 draftedStore = (Inr (Some resp), u)"
    and tab: "containerTable u 1 = Some (?cb\<lparr>currentRevision := Some (nextRevision (currentRevision ?cb))\<rparr>)"
    and prods: "\<And>q qb qd. q \<in> set (products ?raw) \<Longrightarrow> productTable draftedStore q = Some qb \<Longrightarrow>
          updatedProductTable draftedStore q = Some qd \<Longrightarrow>
          productTable u q = Some (qb\<lparr>currentRevision := Some (nextRevision (currentRevision qb))\<rparr>)
          \<and> productRevisionTable u (q, nextRevision (currentRevision qb)) = Some qd"
    by blast
  from prods [of 1 ?pb cola] have pr: "productTable u 1 = Some \<lparr>owner = 7, currentRevision = Some 1\<rparr>"
    "productRevisionTable u (1, 1) = Some cola"
    by (simp_all add: draftedStore_def nextRevision_def)
  from tab have c7: "containerTable u 1 = Some \<lparr>owner = 7, currentRevision = Some 1, public = True\<rparr>"
    by (simp add: nextRevision_def)
  have r7: "fst (approveContainerUpdate Lax 1 draftedStore)
       = Inr (Some \<lparr>containerId = Some 1, containerRevision = Some 1,
                     responseName = Some ''fridge''\<rparr>)"
    by (simp add: defs)
  from lax c7 pr have c8: "containerTable (snd (approveContainerUpdate Lax 1 draftedStore)) 1
       = Some \<lparr>owner = 7, currentRevision = Some 1, public = True\<rparr>"
    "productTable (snd (approveContainerUpdate Lax 1 draftedStore)) 1
       = Some \<lparr>owner = 7, currentRevision = Some 1\<rparr>"
    "productRevisionTable (snd (approveContainerUpdate Lax 1 draftedStore)) (1, 1) = Some cola"
    by simp_all
  from n1 c1 n2 c2 n3 c3 n4 c4 c5 c6 eq r7 c8 show ?thesis by blast
qed

subsection \<open>Immutable revisions\<close>

text \<open>
  C9. Saving a product revision or a container revision under a key that already holds
  other values fails with the error of \<open>denyUpdate\<close> and leaves the store as it was. No
  public operation changes or removes a stored product revision or container revision: the
  revision rows an operation adds are new ones. In a store reached from the empty store by
  public operations, no operation raises that error, and the keys that the next approval of
  a product and of a container write are unused.
\<close>

theorem revisions_immutable:
  "(productRevisionTable s key = Some old \<and> row \<noteq> old
      \<longrightarrow> saveProductRevision key row s = (Inl ImmutableEntity, s))
   \<and> (containerRevisionTable s key = Some kept \<and> pinned \<noteq> kept
      \<longrightarrow> saveContainerRevision key pinned s = (Inl ImmutableEntity, s))
   \<and> (perform pol x s = (r, s') \<and> productRevisionTable s key = Some old
      \<longrightarrow> productRevisionTable s' key = Some old)
   \<and> (perform pol x s = (r, s') \<and> containerRevisionTable s key = Some kept
      \<longrightarrow> containerRevisionTable s' key = Some kept)
   \<and> fst (perform pol x (run pol ops emptyStore)) \<noteq> Inl ImmutableEntity
   \<and> (productTable (run pol ops emptyStore) p = Some b
      \<longrightarrow> productRevisionTable (run pol ops emptyStore) (p, nextRevision (currentRevision b)) = None)
   \<and> (containerTable (run pol ops emptyStore) c = Some cb
      \<longrightarrow> containerRevisionTable (run pol ops emptyStore) (c, nextRevision (currentRevision cb))
            = None)"
proof (intro conjI impI)
  assume "productRevisionTable s key = Some old \<and> row \<noteq> old"
  then show "saveProductRevision key row s = (Inl ImmutableEntity, s)"
    by (auto simp: saveProductRevision_def denyUpdate_def)
next
  assume "containerRevisionTable s key = Some kept \<and> pinned \<noteq> kept"
  then show "saveContainerRevision key pinned s = (Inl ImmutableEntity, s)"
    by (auto simp: saveContainerRevision_def denyUpdate_def)
next
  assume "perform pol x s = (r, s') \<and> productRevisionTable s key = Some old"
  then show "productRevisionTable s' key = Some old"
    using perform_keeps by blast
next
  assume "perform pol x s = (r, s') \<and> containerRevisionTable s key = Some kept"
  then show "containerRevisionTable s' key = Some kept"
    using perform_keeps by blast
next
  obtain r1 s1 where "perform pol x (run pol ops emptyStore) = (r1, s1)"
    by (cases "perform pol x (run pol ops emptyStore)")
  with perform_consistent [OF reachable_consistent this]
  show "fst (perform pol x (run pol ops emptyStore)) \<noteq> Inl ImmutableEntity" by simp
next
  assume "productTable (run pol ops emptyStore) p = Some b"
  with reachable_consistent(1)
  show "productRevisionTable (run pol ops emptyStore) (p, nextRevision (currentRevision b)) = None"
    by (rule consistent_fresh)
next
  assume "containerTable (run pol ops emptyStore) c = Some cb"
  with reachable_consistent(2)
  show "containerRevisionTable (run pol ops emptyStore) (c, nextRevision (currentRevision cb)) = None"
    by (rule containersConsistent_fresh)
qed

theorem revisions_immutable_witness:
  "productRevisionTable revisedStore (1, 1) = Some cola
   \<and> beer \<noteq> cola
   \<and> saveProductRevision (1, 1) beer revisedStore = (Inl ImmutableEntity, revisedStore)
   \<and> containerRevisionTable pinnedStore (1, 1)
       = Some \<lparr>revisionName = ''fridge'', revisionProducts = [(1, 1)]\<rparr>
   \<and> saveContainerRevision (1, 1) \<lparr>revisionName = ''bar'', revisionProducts = [(1, 1)]\<rparr> pinnedStore
       = (Inl ImmutableEntity, pinnedStore)
   \<and> fst (perform Strict (ApproveProduct 1) revisedStore) = Inr True
   \<and> productRevisionTable (snd (perform Strict (ApproveProduct 1) revisedStore)) (1, 1) = Some cola
   \<and> productRevisionTable (snd (perform Strict (ApproveProduct 1) revisedStore)) (1, 2) = Some beer
   \<and> fst (perform Strict (ApproveContainer 1) pinnedStore) = Inr True
   \<and> containerRevisionTable (snd (perform Strict (ApproveContainer 1) pinnedStore)) (1, 1)
       = Some \<lparr>revisionName = ''fridge'', revisionProducts = [(1, 1)]\<rparr>
   \<and> containerRevisionTable (snd (perform Strict (ApproveContainer 1) pinnedStore)) (1, 2)
       = Some \<lparr>revisionName = ''bar'', revisionProducts = [(1, 1)]\<rparr>
   \<and> productTable (run Lax (setupRun @ [ApproveContainer 1]) emptyStore) 1
       = Some \<lparr>owner = 7, currentRevision = Some 1\<rparr>
   \<and> productRevisionTable (run Lax (setupRun @ [ApproveContainer 1]) emptyStore) (1, 2) = None
   \<and> containerTable (run Lax (setupRun @ [ApproveContainer 1]) emptyStore) 1
       = Some \<lparr>owner = 7, currentRevision = Some 1, public = True\<rparr>
   \<and> containerRevisionTable (run Lax (setupRun @ [ApproveContainer 1]) emptyStore) (1, 2) = None"
proof -
  let ?fridge = "\<lparr>revisionName = ''fridge'', revisionProducts = [(1, 1)]\<rparr>"
  let ?bar = "\<lparr>revisionName = ''bar'', revisionProducts = [(1, 1)]\<rparr>"
  let ?S = "run Lax (setupRun @ [ApproveContainer 1]) emptyStore"
  note defs = revisedStore_def emptyStore_def answered_def approveProductUpdate_def
    getUpdatedProduct_def getProduct_def saveProductRevision_def nextRevision_def Let_def
    cola_def beer_def
  note cdefs = pinnedStore_def stockedStore_def draftedStore_def answered_def
    approveContainerUpdate_def getContainer_def getProductsResponse_def
    createContainerRevision_def saveContainerRevision_def draftProductIds_def
    findUpdatedProducts_def findProductRevisions_def nextRevision_def Let_def
  note rdefs = run_def setupRun_def answered_def createContainer_def
    createProduct_def emptyStore_def updateContainer_def getUpdatedProduct_def
    getUpdatedContainer_def Let_def approveProductUpdate_def getProduct_def
    saveProductRevision_def nextRevision_def approveContainerUpdate_def getContainer_def
    getProductsResponse_def createContainerRevision_def saveContainerRevision_def
    draftProductIds_def findUpdatedProducts_def findProductRevisions_def
  have h1: "productRevisionTable revisedStore (1, 1) = Some cola \<and> beer \<noteq> cola"
    by (simp add: revisedStore_def cola_def beer_def)
  have c1: "saveProductRevision (1, 1) beer revisedStore = (Inl ImmutableEntity, revisedStore)"
    by (rule revisions_immutable [THEN conjunct1, THEN mp]) (rule h1)
  have h2: "containerRevisionTable pinnedStore (1, 1) = Some ?fridge \<and> ?bar \<noteq> ?fridge"
    by (simp add: pinnedStore_def)
  have c2: "saveContainerRevision (1, 1) ?bar pinnedStore = (Inl ImmutableEntity, pinnedStore)"
    by (rule revisions_immutable [THEN conjunct2, THEN conjunct1, THEN mp]) (rule h2)
  have ok: "fst (perform Strict (ApproveProduct 1) revisedStore) = Inr True"
    "productRevisionTable (snd (perform Strict (ApproveProduct 1) revisedStore)) (1, 2) = Some beer"
    by (simp_all add: defs)
  have h3: "perform Strict (ApproveProduct 1) revisedStore
              = (Inr True, snd (perform Strict (ApproveProduct 1) revisedStore))
      \<and> productRevisionTable revisedStore (1, 1) = Some cola"
    using ok(1) h1 by (simp add: prod_eq_iff)
  have c3: "productRevisionTable (snd (perform Strict (ApproveProduct 1) revisedStore)) (1, 1) = Some cola"
    by (rule revisions_immutable [THEN conjunct2, THEN conjunct2, THEN conjunct1, THEN mp])
       (rule h3)
  have okc: "fst (perform Strict (ApproveContainer 1) pinnedStore) = Inr True"
    "containerRevisionTable (snd (perform Strict (ApproveContainer 1) pinnedStore)) (1, 2) = Some ?bar"
    by (simp_all add: cdefs)
  have h4: "perform Strict (ApproveContainer 1) pinnedStore
              = (Inr True, snd (perform Strict (ApproveContainer 1) pinnedStore))
      \<and> containerRevisionTable pinnedStore (1, 1) = Some ?fridge"
    using okc(1) h2 by (simp add: prod_eq_iff)
  have c4: "containerRevisionTable (snd (perform Strict (ApproveContainer 1) pinnedStore)) (1, 1)
      = Some ?fridge"
    by (rule revisions_immutable [THEN conjunct2, THEN conjunct2, THEN conjunct2, THEN conjunct1,
          THEN mp])
       (rule h4)
  have h5: "productTable ?S 1 = Some \<lparr>owner = 7, currentRevision = Some 1\<rparr>"
    by (simp add: rdefs)
  have "productRevisionTable ?S
          (1, nextRevision (currentRevision \<lparr>owner = 7, currentRevision = Some 1\<rparr>)) = None"
    by (rule revisions_immutable [THEN conjunct2, THEN conjunct2, THEN conjunct2, THEN conjunct2,
          THEN conjunct2, THEN conjunct1, THEN mp])
       (rule h5)
  then have c5: "productRevisionTable ?S (1, 2) = None"
    by (simp add: nextRevision_def numeral_2_eq_2)
  have h6: "containerTable ?S 1 = Some \<lparr>owner = 7, currentRevision = Some 1, public = True\<rparr>"
    by (simp add: rdefs)
  have "containerRevisionTable ?S
          (1, nextRevision (currentRevision \<lparr>owner = 7, currentRevision = Some 1, public = True\<rparr>))
          = None"
    by (rule revisions_immutable [THEN conjunct2, THEN conjunct2, THEN conjunct2, THEN conjunct2,
          THEN conjunct2, THEN conjunct2, THEN mp])
       (rule h6)
  then have c6: "containerRevisionTable ?S (1, 2) = None"
    by (simp add: nextRevision_def numeral_2_eq_2)
  from h1 c1 h2 c2 ok c3 okc c4 h5 c5 h6 c6 show ?thesis by blast
qed
subsection \<open>The two versions of the container approval\<close>

text \<open>
  C7. In a store reached by public operations, let the draft of container \<open>c\<close> list a
  product \<open>q\<close> that has a draft \<open>d\<close> of its own. The later version of
  \<open>approveContainerUpdate\<close> throws \<open>UnapprovedProductError\<close> and leaves the store unchanged, so
  no container revision is created. The earlier version approves the product first (its
  draft becomes its next revision and is deleted) and then creates the container revision,
  which lists that new product revision. The two versions give different results there.
\<close>

theorem approveContainerUpdate_policies_differ:
  "containerTable (run pol ops emptyStore) c = Some cb
   \<and> updatedContainerTable (run pol ops emptyStore) c = Some raw
   \<and> q \<in> set (products raw)
   \<and> productTable (run pol ops emptyStore) q = Some b
   \<and> updatedProductTable (run pol ops emptyStore) q = Some d
   \<longrightarrow>
     approveContainerUpdate Strict c (run pol ops emptyStore)
       = (Inl UnapprovedProductError, run pol ops emptyStore)
   \<and> (\<exists>resp s'. approveContainerUpdate Lax c (run pol ops emptyStore) = (Inr (Some resp), s')
          \<and> containerRevision resp = Some (nextRevision (currentRevision cb))
          \<and> productRevisionTable s' (q, nextRevision (currentRevision b)) = Some d
          \<and> productTable s' q = Some (b\<lparr>currentRevision := Some (nextRevision (currentRevision b))\<rparr>)
          \<and> updatedProductTable s' q = None
          \<and> (\<exists>row. containerRevisionTable s' (c, nextRevision (currentRevision cb)) = Some row
                 \<and> (q, nextRevision (currentRevision b)) \<in> set (revisionProducts row)))
   \<and> approveContainerUpdate Lax c (run pol ops emptyStore)
       \<noteq> approveContainerUpdate Strict c (run pol ops emptyStore)"
proof
  let ?s = "run pol ops emptyStore"
  assume a: "containerTable ?s c = Some cb \<and> updatedContainerTable ?s c = Some raw
   \<and> q \<in> set (products raw) \<and> productTable ?s q = Some b \<and> updatedProductTable ?s q = Some d"
  then have cb: "containerTable ?s c = Some cb" and raw: "updatedContainerTable ?s c = Some raw"
    by simp_all
  let ?ids = "draftProductIds raw ?s"
  let ?ups = "findUpdatedProducts ?ids ?s"
  from a have qin: "q \<in> set ?ups" by (simp add: findUpdatedProducts_set)
  then have ne: "?ups \<noteq> []" by auto
  with a have strict: "approveContainerUpdate Strict c ?s = (Inl UnapprovedProductError, ?s)"
    by (simp add: approveContainerUpdate_def)
  from approveContainerUpdate_lax_succeeds [OF reachable_consistent cb raw]
  obtain ids' s1 where
    lax: "approveContainerUpdate Lax c ?s =
         (Inr (Some (approvedResponse Lax c cb raw)), approvedContainer c cb raw ids' s1)"
    and each: "\<And>q b d. q \<in> set (products raw) \<Longrightarrow> productTable ?s q = Some b \<Longrightarrow>
          updatedProductTable ?s q = Some d \<Longrightarrow>
           (q, Some (nextRevision (currentRevision b))) \<in> set ids'
         \<and> productRevisionTable s1 (q, nextRevision (currentRevision b)) = Some d
         \<and> productTable s1 q = Some (b\<lparr>currentRevision := Some (nextRevision (currentRevision b))\<rparr>)
         \<and> updatedProductTable s1 q = None"
    by blast
  let ?s' = "approvedContainer c cb raw ids' s1"
  let ?resp = "approvedResponse Lax c cb raw"
  from each [of q b d] a
  have qs: "(q, Some (nextRevision (currentRevision b))) \<in> set ids'"
    "productRevisionTable s1 (q, nextRevision (currentRevision b)) = Some d"
    "productTable s1 q = Some (b\<lparr>currentRevision := Some (nextRevision (currentRevision b))\<rparr>)"
    "updatedProductTable s1 q = None"
    by simp_all
  have pinned: "(q, nextRevision (currentRevision b)) \<in> set (findProductRevisions ids' s1)"
    using qs(1,2) by (simp add: findProductRevisions_mem)
  have "containerRevision ?resp = Some (nextRevision (currentRevision cb))
          \<and> productRevisionTable ?s' (q, nextRevision (currentRevision b)) = Some d
          \<and> productTable ?s' q = Some (b\<lparr>currentRevision := Some (nextRevision (currentRevision b))\<rparr>)
          \<and> updatedProductTable ?s' q = None
          \<and> (\<exists>row. containerRevisionTable ?s' (c, nextRevision (currentRevision cb)) = Some row
                 \<and> (q, nextRevision (currentRevision b)) \<in> set (revisionProducts row))"
    using qs pinned by (simp add: approvedContainer_def approvedResponse_def)
  with lax strict
  show "approveContainerUpdate Strict c ?s = (Inl UnapprovedProductError, ?s)
   \<and> (\<exists>resp s'. approveContainerUpdate Lax c ?s = (Inr (Some resp), s')
          \<and> containerRevision resp = Some (nextRevision (currentRevision cb))
          \<and> productRevisionTable s' (q, nextRevision (currentRevision b)) = Some d
          \<and> productTable s' q = Some (b\<lparr>currentRevision := Some (nextRevision (currentRevision b))\<rparr>)
          \<and> updatedProductTable s' q = None
          \<and> (\<exists>row. containerRevisionTable s' (c, nextRevision (currentRevision cb)) = Some row
                 \<and> (q, nextRevision (currentRevision b)) \<in> set (revisionProducts row)))
   \<and> approveContainerUpdate Lax c ?s \<noteq> approveContainerUpdate Strict c ?s"
    by auto
qed

theorem approveContainerUpdate_policies_differ_witness:
  "run Strict setupRun emptyStore = draftedStore
   \<and> approveContainerUpdate Strict 1 draftedStore = (Inl UnapprovedProductError, draftedStore)
   \<and> fst (approveContainerUpdate Lax 1 draftedStore)
       = Inr (Some \<lparr>containerId = Some 1, containerRevision = Some 1,
                     responseName = Some ''fridge''\<rparr>)
   \<and> productRevisionTable (snd (approveContainerUpdate Lax 1 draftedStore)) (1, 1) = Some cola
   \<and> containerRevisionTable (snd (approveContainerUpdate Lax 1 draftedStore)) (1, 1)
       = Some \<lparr>revisionName = ''fridge'', revisionProducts = [(1, 1)]\<rparr>"
proof -
  note defs = draftedStore_def approveProductUpdate_def getUpdatedProduct_def getProduct_def
    saveProductRevision_def nextRevision_def Let_def approveContainerUpdate_def getContainer_def
    getProductsResponse_def createContainerRevision_def saveContainerRevision_def
    draftProductIds_def findUpdatedProducts_def findProductRevisions_def
  have eq: "run Strict setupRun emptyStore = draftedStore"
    by (simp add: run_def setupRun_def draftedStore_def answered_def createContainer_def
        createProduct_def emptyStore_def updateContainer_def getUpdatedProduct_def
        getUpdatedContainer_def getProductsResponse_def Let_def)
  have h: "containerTable draftedStore 1 = Some \<lparr>owner = 7, currentRevision = None, public = True\<rparr>
      \<and> updatedContainerTable draftedStore 1 = Some \<lparr>containerName = ''fridge'', products = [1]\<rparr>
      \<and> 1 \<in> set (products \<lparr>containerName = ''fridge'', products = [1]\<rparr>)
      \<and> productTable draftedStore 1 = Some \<lparr>owner = 7, currentRevision = None\<rparr>
      \<and> updatedProductTable draftedStore 1 = Some cola"
    by (simp add: draftedStore_def)
  from approveContainerUpdate_policies_differ [where pol = Strict and ops = setupRun and c = 1
      and q = 1 and cb = "\<lparr>owner = 7, currentRevision = None, public = True\<rparr>"
      and raw = "\<lparr>containerName = ''fridge'', products = [1]\<rparr>"
      and b = "\<lparr>owner = 7, currentRevision = None\<rparr>" and d = cola, unfolded eq] h
  have strict: "approveContainerUpdate Strict 1 draftedStore = (Inl UnapprovedProductError, draftedStore)"
    by blast
  have lax: "fst (approveContainerUpdate Lax 1 draftedStore)
       = Inr (Some \<lparr>containerId = Some 1, containerRevision = Some 1,
                     responseName = Some ''fridge''\<rparr>)"
    "productRevisionTable (snd (approveContainerUpdate Lax 1 draftedStore)) (1, 1) = Some cola"
    "containerRevisionTable (snd (approveContainerUpdate Lax 1 draftedStore)) (1, 1)
       = Some \<lparr>revisionName = ''fridge'', revisionProducts = [(1, 1)]\<rparr>"
    by (simp_all add: defs)
  from eq strict lax show ?thesis by blast
qed
subsection \<open>Handing out fines\<close>

lemma createTransfer_debit:
  "\<not> rejected (debit amt uid descr db) \<Longrightarrow>
   createTransfer bal rejected amt (Some uid) None descr db
     = (Inr (debit amt uid descr db), db\<lparr>transferTable := transferTable db @ [debit amt uid descr db]\<rparr>)"
  by (simp add: createTransfer_def debit_def validateDebtPaid_def Let_def)



text \<open>Every step of a body that does not throw brings the body nearer to its end.\<close>

lemma advance_progress:
  assumes "advance bal rejected date previous event b p st = (Inr p', st')"
  shows "stepsLeft p' \<le> stepsLeft p - 1"
proof (cases p)
  case Finding
  with assms show ?thesis
    by (auto simp: advance_def stepsLeft_def Let_def split: option.splits)
next
  case (Grouping user)
  with assms show ?thesis
    by (auto simp: advance_def stepsLeft_def Let_def split: if_splits)
next
  case (Marking user grp)
  with assms show ?thesis
    by (auto simp: advance_def stepsLeft_def Let_def)
next
  case (Debiting user grp fines)
  with assms show ?thesis
    by (auto simp: advance_def stepsLeft_def Let_def split: prod.splits sum.splits)
next
  case (Fined fine)
  with assms show ?thesis
    by (auto simp: advance_def stepsLeft_def Let_def)
qed

lemma interleave_append:
  "interleave step (xs @ ys) ps st =
     (case interleave step xs ps st of
        (Inl e, st1) \<Rightarrow> (Inl e, st1)
      | (Inr ps1, st1) \<Rightarrow> interleave step ys ps1 st1)"
  by (induction xs arbitrary: ps st) (auto split: prod.splits sum.splits)

lemma interleave_steps:
  fixes left :: "'p \<Rightarrow> nat"
  assumes "\<And>i p st p' st'. step i p st = (Inr p', st') \<Longrightarrow> left p' \<le> left p - 1"
  shows "interleave step xs ps st = (Inr ps', st') \<Longrightarrow>
     length ps' = length ps
     \<and> (\<forall>i < length ps. left (ps' ! i) \<le> left (ps ! i)
           \<and> (i \<in> set xs \<longrightarrow> left (ps' ! i) \<le> left (ps ! i) - 1))"
proof (induction xs arbitrary: ps st)
  case Nil
  then show ?case by simp
next
  case (Cons k xs)
  show ?case
  proof (cases "k < length ps")
    case False
    with Cons.prems have "interleave step xs ps st = (Inr ps', st')" by simp
    from Cons.IH [OF this] False show ?thesis by auto
  next
    case True
    obtain r st1 where st: "step k (ps ! k) st = (r, st1)" by (cases "step k (ps ! k) st")
    with Cons.prems True obtain p where p: "r = Inr p"
      and rest: "interleave step xs (ps[k := p]) st1 = (Inr ps', st')"
      by (cases r) auto
    from assms [of k "ps ! k" st p st1] st p have dec: "left p \<le> left (ps ! k) - 1" by simp
    from Cons.IH [OF rest]
    have len: "length ps' = length ps"
      and each: "\<And>i. i < length ps \<Longrightarrow> left (ps' ! i) \<le> left (ps[k := p] ! i)
           \<and> (i \<in> set xs \<longrightarrow> left (ps' ! i) \<le> left (ps[k := p] ! i) - 1)"
      by simp_all
    have "left (ps' ! i) \<le> left (ps ! i)
           \<and> (i \<in> set (k # xs) \<longrightarrow> left (ps' ! i) \<le> left (ps ! i) - 1)"
      if i: "i < length ps" for i
    proof (cases "i = k")
      case True
      with each [OF i] i dec show ?thesis by auto
    next
      case False
      with each [OF i] show ?thesis by auto
    qed
    with len show ?thesis by simp
  qed
qed

lemma interleave_rounds:
  fixes left :: "'p \<Rightarrow> nat"
  assumes "\<And>i p st p' st'. step i p st = (Inr p', st') \<Longrightarrow> left p' \<le> left p - 1"
  shows "interleave step (concat (replicate k [0..<length ps])) ps st = (Inr ps', st') \<Longrightarrow>
     \<forall>i < length ps. left (ps ! i) \<le> k \<Longrightarrow>
     length ps' = length ps \<and> (\<forall>i < length ps. left (ps' ! i) = 0)"
proof (induction k arbitrary: ps st)
  case 0
  then show ?case by simp
next
  case (Suc k)
  from Suc.prems(1) obtain ps1 st1 where
    first: "interleave step [0..<length ps] ps st = (Inr ps1, st1)"
    and rest: "interleave step (concat (replicate k [0..<length ps])) ps1 st1 = (Inr ps', st')"
    by (auto simp: interleave_append split: prod.splits sum.splits)
  from interleave_steps [of step left, OF assms first]
  have len: "length ps1 = length ps"
    and dec: "\<And>i. i < length ps \<Longrightarrow> left (ps1 ! i) \<le> left (ps ! i) - 1"
    by simp_all
  have "\<forall>i < length ps1. left (ps1 ! i) \<le> k"
  proof (intro allI impI)
    fix i assume "i < length ps1"
    with len have i: "i < length ps" by simp
    from dec [OF i] Suc.prems(2) i show "left (ps1 ! i) \<le> k" by fastforce
  qed
  with Suc.IH [of ps1 st1] rest len show ?case by simp
qed

text \<open>The records whose bodies have returned, as the bodies take their steps.\<close>

lemma finished_start: "finished (replicate (length bs) Finding) bs = []"
proof -
  have "filter (\<lambda>x. stepsLeft (fst x) = 0) (zip (replicate n Finding) bs) = []" for n
  proof (induction bs arbitrary: n)
    case Nil
    then show ?case by simp
  next
    case (Cons b bs)
    then show ?case by (cases n) (simp_all add: stepsLeft_def)
  qed
  then show ?thesis by (simp add: finished_def)
qed

lemma finished_all:
  "length ps = length bs \<Longrightarrow> \<forall>i < length ps. stepsLeft (ps ! i) = 0 \<Longrightarrow> finished ps bs = bs"
proof (induction ps arbitrary: bs)
  case Nil
  then show ?case by (simp add: finished_def)
next
  case (Cons p ps)
  then obtain b bs' where bs: "bs = b # bs'" by (cases bs) auto
  from Cons.prems(2) have "stepsLeft p = 0" "\<forall>i < length ps. stepsLeft (ps ! i) = 0"
    by auto
  with Cons.IH [of bs'] Cons.prems(1) bs show ?case by (simp add: finished_def)
qed

lemma finished_same:
  "k < length ps \<Longrightarrow> length ps = length bs \<Longrightarrow> stepsLeft (ps ! k) \<noteq> 0 \<Longrightarrow> stepsLeft p \<noteq> 0 \<Longrightarrow>
   finished (ps[k := p]) bs = finished ps bs"
proof (induction ps arbitrary: k bs)
  case Nil
  then show ?case by simp
next
  case (Cons q ps)
  then obtain b bs' where bs: "bs = b # bs'" by (cases bs) auto
  show ?case
  proof (cases k)
    case 0
    with Cons.prems bs show ?thesis by (simp add: finished_def)
  next
    case (Suc j)
    with Cons.prems bs Cons.IH [of j bs'] show ?thesis by (simp add: finished_def)
  qed
qed

lemma finished_more:
  "k < length ps \<Longrightarrow> length ps = length bs \<Longrightarrow> stepsLeft (ps ! k) \<noteq> 0 \<Longrightarrow> stepsLeft p = 0 \<Longrightarrow>
   mset (finished (ps[k := p]) bs) = add_mset (bs ! k) (mset (finished ps bs))"
proof (induction ps arbitrary: k bs)
  case Nil
  then show ?case by simp
next
  case (Cons q ps)
  then obtain b bs' where bs: "bs = b # bs'" by (cases bs) auto
  show ?case
  proof (cases k)
    case 0
    with Cons.prems bs show ?thesis by (simp add: finished_def)
  next
    case (Suc j)
    with Cons.prems bs Cons.IH [of j bs'] show ?thesis by (simp add: finished_def)
  qed
qed

lemma finished_subset: "set (finished ps bs) \<subseteq> set bs"
  unfolding finished_def by (auto dest: set_zip_rightD)

lemma find_other:
  "userId v \<noteq> u \<Longrightarrow>
   find (\<lambda>x. userId x = u) (map (\<lambda>x. if userId x = userId v then v else x) xs)
     = find (\<lambda>x. userId x = u) xs"
  by (induction xs) auto

lemma findUser_saveUser_other:
  "userId v \<noteq> u \<Longrightarrow> findUser u (saveUser v db) = findUser u db"
  by (simp add: findUser_def saveUser_def find_other)

lemma findUser_tables: "userTable db' = userTable db \<Longrightarrow> findUser u db' = findUser u db"
  by (simp add: findUser_def)

lemma currentFines_none: "currentFines u = None \<Longrightarrow> u\<lparr>currentFines := None\<rparr> = u"
  by (cases u) simp

lemma linked_mono:
  assumes "linked b user0 grp gs db" "set gs \<subseteq> set gs'"
    "findUser (fst b) db' = findUser (fst b) db"
  shows "linked b user0 grp gs' db'"
  using assms unfolding linked_def by (auto split: option.splits)

lemma bodyOk_mono:
  assumes "bodyOk event b user0 p ts gs db" "set ts \<subseteq> set ts'" "set gs \<subseteq> set gs'"
    "findUser (fst b) db' = findUser (fst b) db"
  shows "bodyOk event b user0 p ts' gs' db'"
proof (cases p)
  case Finding
  with assms show ?thesis by (simp add: bodyOk_def)
next
  case (Grouping user)
  with assms show ?thesis by (simp add: bodyOk_def)
next
  case (Marking user grp)
  with assms show ?thesis by (auto simp: bodyOk_def)
next
  case (Debiting user grp fines)
  with assms linked_mono [of b user0 grp gs db gs' db'] show ?thesis by (simp add: bodyOk_def)
next
  case (Fined fine)
  with assms linked_mono [of b user0 "userFineGroup fine" gs db gs' db'] show ?thesis
    by (auto simp: bodyOk_def)
qed

lemma handoutInvD:
  assumes "handoutInv event bs db0 ps st ts gs"
  shows "length ps = length bs"
    and "transferTable (fst st) = transferTable db0 @ ts"
    and "userFineGroupTable (fst st) = userFineGroupTable db0 @ gs"
    and "fineTable (fst st) = fineTable db0"
    and "fineHandoutEventTable (fst st) = fineHandoutEventTable db0"
    and "\<And>v. v \<notin> fst ` set bs \<Longrightarrow> findUser v (fst st) = findUser v db0"
    and "\<And>i user0. i < length bs \<Longrightarrow> findUser (fst (bs ! i)) db0 = Some user0 \<Longrightarrow>
           bodyOk event (bs ! i) user0 (ps ! i) ts gs (fst st)"
    and "\<And>row. row \<in> set gs \<Longrightarrow> groupUserId row \<in> fst ` set bs
           \<and> (\<exists>user0. findUser (groupUserId row) db0 = Some user0 \<and> currentFines user0 = None)"
    and "mset (map (\<lambda>t. (fromId t, toId t, amount t)) ts)
         = mset (map (\<lambda>b. (Some (fst b), None :: nat option, calculateFine (snd b)))
                   (finished ps bs))"
    and "mset (map mailTo (snd st)) = mset (map fst (finished ps bs))"
proof -
  note parts = assms [unfolded handoutInv_def]
  show "length ps = length bs" by (rule parts [THEN conjunct1])
  note p2 = parts [THEN conjunct2]
  show "transferTable (fst st) = transferTable db0 @ ts" by (rule p2 [THEN conjunct1])
  note p3 = p2 [THEN conjunct2]
  show "userFineGroupTable (fst st) = userFineGroupTable db0 @ gs" by (rule p3 [THEN conjunct1])
  note p4 = p3 [THEN conjunct2]
  show "fineTable (fst st) = fineTable db0" by (rule p4 [THEN conjunct1])
  note p5 = p4 [THEN conjunct2]
  show "fineHandoutEventTable (fst st) = fineHandoutEventTable db0" by (rule p5 [THEN conjunct1])
  note p6 = p5 [THEN conjunct2]
  show "\<And>v. v \<notin> fst ` set bs \<Longrightarrow> findUser v (fst st) = findUser v db0"
    by (rule p6 [THEN conjunct1, rule_format])
  note p7 = p6 [THEN conjunct2]
  show "\<And>i user0. i < length bs \<Longrightarrow> findUser (fst (bs ! i)) db0 = Some user0 \<Longrightarrow>
           bodyOk event (bs ! i) user0 (ps ! i) ts gs (fst st)"
    by (rule p7 [THEN conjunct1, rule_format])
  note p8 = p7 [THEN conjunct2]
  show "\<And>row. row \<in> set gs \<Longrightarrow> groupUserId row \<in> fst ` set bs
           \<and> (\<exists>user0. findUser (groupUserId row) db0 = Some user0 \<and> currentFines user0 = None)"
    by (rule p8 [THEN conjunct1, THEN bspec])
  note p9 = p8 [THEN conjunct2]
  show "mset (map (\<lambda>t. (fromId t, toId t, amount t)) ts)
         = mset (map (\<lambda>b. (Some (fst b), None :: nat option, calculateFine (snd b)))
                   (finished ps bs))"
    by (rule p9 [THEN conjunct1])
  show "mset (map mailTo (snd st)) = mset (map fst (finished ps bs))"
    by (rule p9 [THEN conjunct2])
qed

lemma handoutInvI:
  assumes "length ps = length bs"
    and "transferTable db = transferTable db0 @ ts"
    and "userFineGroupTable db = userFineGroupTable db0 @ gs"
    and "fineTable db = fineTable db0"
    and "fineHandoutEventTable db = fineHandoutEventTable db0"
    and "\<And>v. v \<notin> fst ` set bs \<Longrightarrow> findUser v db = findUser v db0"
    and "\<And>i user0. i < length bs \<Longrightarrow> findUser (fst (bs ! i)) db0 = Some user0 \<Longrightarrow>
           bodyOk event (bs ! i) user0 (ps ! i) ts gs db"
    and "\<And>row. row \<in> set gs \<Longrightarrow> groupUserId row \<in> fst ` set bs
           \<and> (\<exists>user0. findUser (groupUserId row) db0 = Some user0 \<and> currentFines user0 = None)"
    and "mset (map (\<lambda>t. (fromId t, toId t, amount t)) ts)
         = mset (map (\<lambda>b. (Some (fst b), None :: nat option, calculateFine (snd b)))
                   (finished ps bs))"
    and "mset (map mailTo emails) = mset (map fst (finished ps bs))"
  shows "handoutInv event bs db0 ps (db, emails) ts gs"
  unfolding handoutInv_def fst_conv snd_conv
proof (intro conjI allI impI ballI)
  show "length ps = length bs" by (rule assms)
  show "transferTable db = transferTable db0 @ ts" by (rule assms)
  show "userFineGroupTable db = userFineGroupTable db0 @ gs" by (rule assms)
  show "fineTable db = fineTable db0" by (rule assms)
  show "fineHandoutEventTable db = fineHandoutEventTable db0" by (rule assms)
  show "findUser v db = findUser v db0" if "v \<notin> fst ` set bs" for v
    using that by (rule assms(6))
  show "bodyOk event (bs ! i) user0 (ps ! i) ts gs db"
    if "i < length bs" "findUser (fst (bs ! i)) db0 = Some user0" for i user0
    using that by (rule assms(7))
  show "groupUserId row \<in> fst ` set bs" if "row \<in> set gs" for row
    using assms(8) [OF that] by simp
  show "\<exists>user0. findUser (groupUserId row) db0 = Some user0 \<and> currentFines user0 = None"
    if "row \<in> set gs" for row
    using assms(8) [OF that] by simp
  show "mset (map (\<lambda>t. (fromId t, toId t, amount t)) ts)
         = mset (map (\<lambda>b. (Some (fst b), None :: nat option, calculateFine (snd b)))
                   (finished ps bs))"
    by (rule assms)
  show "mset (map mailTo emails) = mset (map fst (finished ps bs))" by (rule assms)
qed

text \<open>
  How a step of body \<open>k\<close> keeps the state of the loop: the other bodies stand where they
  stood, and their users are not touched.
\<close>

lemma handoutInv_step:
  assumes inv: "handoutInv event bs db0 ps st ts gs"
    and k: "k < length bs" and dist: "distinct (map fst bs)"
    and tabs: "transferTable db' = transferTable db0 @ ts'"
      "userFineGroupTable db' = userFineGroupTable db0 @ gs'"
      "fineTable db' = fineTable db0" "fineHandoutEventTable db' = fineHandoutEventTable db0"
    and sub: "set ts \<subseteq> set ts'" "set gs \<subseteq> set gs'"
    and frame: "\<And>v. v \<noteq> fst (bs ! k) \<Longrightarrow> findUser v db' = findUser v (fst st)"
    and mine: "\<And>user0. findUser (fst (bs ! k)) db0 = Some user0 \<Longrightarrow>
        bodyOk event (bs ! k) user0 p ts' gs' db'"
    and groups: "\<And>row. row \<in> set gs' \<Longrightarrow> row \<notin> set gs \<Longrightarrow>
        groupUserId row \<in> fst ` set bs
        \<and> (\<exists>user0. findUser (groupUserId row) db0 = Some user0 \<and> currentFines user0 = None)"
    and counts: "mset (map (\<lambda>t. (fromId t, toId t, amount t)) ts')
         = mset (map (\<lambda>b. (Some (fst b), None :: nat option, calculateFine (snd b)))
                   (finished (ps[k := p]) bs))"
      "mset (map mailTo emails') = mset (map fst (finished (ps[k := p]) bs))"
  shows "handoutInv event bs db0 (ps[k := p]) (db', emails') ts' gs'"
proof (rule handoutInvI)
  note d = handoutInvD [OF inv]
  show "length (ps[k := p]) = length bs" using d(1) by simp
  show "transferTable db' = transferTable db0 @ ts'" by (rule tabs)
  show "userFineGroupTable db' = userFineGroupTable db0 @ gs'" by (rule tabs)
  show "fineTable db' = fineTable db0" by (rule tabs)
  show "fineHandoutEventTable db' = fineHandoutEventTable db0" by (rule tabs)
  show "findUser v db' = findUser v db0" if "v \<notin> fst ` set bs" for v
  proof -
    from k have "fst (bs ! k) \<in> fst ` set bs" by simp
    with that have "v \<noteq> fst (bs ! k)" by blast
    from frame [OF this] d(6) [OF that] show ?thesis by simp
  qed
  show "bodyOk event (bs ! i) user0 (ps[k := p] ! i) ts' gs' db'"
    if i: "i < length bs" and u: "findUser (fst (bs ! i)) db0 = Some user0" for i user0
  proof (cases "i = k")
    case True
    with mine [of user0] u k d(1) show ?thesis by simp
  next
    case False
    have "fst (bs ! i) \<noteq> fst (bs ! k)"
      using nth_eq_iff_index_eq [OF dist, of i k] i k False by simp
    then have "findUser (fst (bs ! i)) db' = findUser (fst (bs ! i)) (fst st)" by (rule frame)
    with d(7) [OF i u] sub have "bodyOk event (bs ! i) user0 (ps ! i) ts' gs' db'"
      by (rule bodyOk_mono)
    with False show ?thesis by simp
  qed
  show "groupUserId row \<in> fst ` set bs
           \<and> (\<exists>user0. findUser (groupUserId row) db0 = Some user0 \<and> currentFines user0 = None)"
    if "row \<in> set gs'" for row
    using that d(8) [of row] groups [of row] by blast
  show "mset (map (\<lambda>t. (fromId t, toId t, amount t)) ts')
         = mset (map (\<lambda>b. (Some (fst b), None :: nat option, calculateFine (snd b)))
                   (finished (ps[k := p]) bs))"
    by (rule counts)
  show "mset (map mailTo emails') = mset (map fst (finished (ps[k := p]) bs))"
    by (rule counts)
qed

text \<open>
  A step of a body when no insert is rejected and every record names a user: it does not
  throw, and it keeps the state of the loop.
\<close>

lemma advance_inv:
  assumes nr: "\<And>t. \<not> rejected t" and dist: "distinct (map fst bs)"
    and found: "\<And>b. b \<in> set bs \<Longrightarrow> findUser (fst b) db0 \<noteq> None"
    and inv: "handoutInv event bs db0 ps st ts gs" and k: "k < length bs"
  shows "\<exists>p st' ts' gs'.
      advance bal rejected date previous event (bs ! k) (ps ! k) st = (Inr p, st')
      \<and> handoutInv event bs db0 (ps[k := p]) st' ts' gs'"
proof -
  let ?b = "bs ! k"
  let ?amt = "calculateFine (snd ?b)"
  from k found [of ?b] obtain user0 where u0: "findUser (fst ?b) db0 = Some user0" by auto
  then have uid: "userId user0 = fst ?b" by (rule findUser_userId)
  note d = handoutInvD [OF inv]
  from d(7) [OF k u0] have ok: "bodyOk event ?b user0 (ps ! k) ts gs (fst st)" .
  obtain db emails where st: "st = (db, emails)" by (cases st)
  from d(1) k have kp: "k < length ps" by simp
  have same: "finished (ps[k := p]) bs = finished ps bs"
    if "stepsLeft (ps ! k) \<noteq> 0" "stepsLeft p \<noteq> 0" for p
    using kp d(1) that by (rule finished_same)
  have mine_eq: "user = user0" if "findUser (fst ?b) db0 = Some user" for user
    using that u0 by simp
  show ?thesis
  proof (cases "ps ! k")
    case Finding
    with ok st have f: "findUser (fst ?b) db = Some user0" by (simp add: bodyOk_def)
    show ?thesis
    proof (cases "currentFines user0")
      case None
      let ?p = "Grouping user0"
      from Finding f None st
      have step: "advance bal rejected date previous event ?b (ps ! k) st = (Inr ?p, st)"
        by (simp add: advance_def Let_def)
      have "handoutInv event bs db0 (ps[k := ?p]) (db, emails) ts gs"
      proof (rule handoutInv_step [OF inv k dist])
        show "transferTable db = transferTable db0 @ ts" using d(2) st by simp
        show "userFineGroupTable db = userFineGroupTable db0 @ gs" using d(3) st by simp
        show "fineTable db = fineTable db0" using d(4) st by simp
        show "fineHandoutEventTable db = fineHandoutEventTable db0" using d(5) st by simp
        show "set ts \<subseteq> set ts" "set gs \<subseteq> set gs" by simp_all
        show "findUser v db = findUser v (fst st)" for v using st by simp
        show "bodyOk event ?b user ?p ts gs db" if "findUser (fst ?b) db0 = Some user" for user
          using mine_eq [OF that] f None by (simp add: bodyOk_def)
        show "groupUserId row \<in> fst ` set bs
            \<and> (\<exists>user0. findUser (groupUserId row) db0 = Some user0 \<and> currentFines user0 = None)"
          if "row \<in> set gs" "row \<notin> set gs" for row using that by simp
        have fin: "finished (ps[k := ?p]) bs = finished ps bs"
          using Finding by (intro same) (simp_all add: stepsLeft_def)
        show "mset (map (\<lambda>t. (fromId t, toId t, amount t)) ts)
           = mset (map (\<lambda>b. (Some (fst b), None :: nat option, calculateFine (snd b)))
                     (finished (ps[k := ?p]) bs))"
          unfolding fin by (rule d(9))
        show "mset (map mailTo emails) = mset (map fst (finished (ps[k := ?p]) bs))"
          unfolding fin using d(10) st by simp
      qed
      with step st show ?thesis by blast
    next
      case (Some g)
      let ?p = "Debiting user0 g (filter (\<lambda>f. userFineGroup f = g) (fineTable db))"
      from Finding f Some st
      have step: "advance bal rejected date previous event ?b (ps ! k) st = (Inr ?p, st)"
        by (simp add: advance_def Let_def)
      have "handoutInv event bs db0 (ps[k := ?p]) (db, emails) ts gs"
      proof (rule handoutInv_step [OF inv k dist])
        show "transferTable db = transferTable db0 @ ts" using d(2) st by simp
        show "userFineGroupTable db = userFineGroupTable db0 @ gs" using d(3) st by simp
        show "fineTable db = fineTable db0" using d(4) st by simp
        show "fineHandoutEventTable db = fineHandoutEventTable db0" using d(5) st by simp
        show "set ts \<subseteq> set ts" "set gs \<subseteq> set gs" by simp_all
        show "findUser v db = findUser v (fst st)" for v using st by simp
        show "bodyOk event ?b user ?p ts gs db" if "findUser (fst ?b) db0 = Some user" for user
          using mine_eq [OF that] f Some by (simp add: bodyOk_def linked_def)
        show "groupUserId row \<in> fst ` set bs
            \<and> (\<exists>user0. findUser (groupUserId row) db0 = Some user0 \<and> currentFines user0 = None)"
          if "row \<in> set gs" "row \<notin> set gs" for row using that by simp
        have fin: "finished (ps[k := ?p]) bs = finished ps bs"
          using Finding by (intro same) (simp_all add: stepsLeft_def)
        show "mset (map (\<lambda>t. (fromId t, toId t, amount t)) ts)
           = mset (map (\<lambda>b. (Some (fst b), None :: nat option, calculateFine (snd b)))
                     (finished (ps[k := ?p]) bs))"
          unfolding fin by (rule d(9))
        show "mset (map mailTo emails) = mset (map fst (finished (ps[k := ?p]) bs))"
          unfolding fin using d(10) st by simp
      qed
      with step st show ?thesis by blast
    qed
  next
    case (Grouping user)
    with ok st have g: "user = user0" "currentFines user0 = None"
      "findUser (fst ?b) db = Some user0"
      by (simp_all add: bodyOk_def)
    let ?grp = "newId (map groupId (userFineGroupTable db))"
    let ?row = "\<lparr>groupId = ?grp, groupUserId = fst ?b, waivedTransfer = None\<rparr>"
    let ?db1 = "db\<lparr>userFineGroupTable := userFineGroupTable db @ [?row]\<rparr>"
    let ?p = "if ?amt > 0 then Marking user0 ?grp else Debiting user0 ?grp []"
    from Grouping g st
    have step: "advance bal rejected date previous event ?b (ps ! k) st = (Inr ?p, (?db1, emails))"
      by (simp add: advance_def Let_def)
    have f1: "findUser v ?db1 = findUser v db" for v by (simp add: findUser_def)
    have "handoutInv event bs db0 (ps[k := ?p]) (?db1, emails) ts (gs @ [?row])"
    proof (rule handoutInv_step [OF inv k dist])
      show "transferTable ?db1 = transferTable db0 @ ts" using d(2) st by simp
      show "userFineGroupTable ?db1 = userFineGroupTable db0 @ gs @ [?row]" using d(3) st by simp
      show "fineTable ?db1 = fineTable db0" using d(4) st by simp
      show "fineHandoutEventTable ?db1 = fineHandoutEventTable db0" using d(5) st by simp
      show "set ts \<subseteq> set ts" "set gs \<subseteq> set (gs @ [?row])" by auto
      show "findUser v ?db1 = findUser v (fst st)" for v using st f1 by simp
      show "bodyOk event ?b user ?p ts (gs @ [?row]) ?db1"
        if "findUser (fst ?b) db0 = Some user" for user
      proof (cases "?amt > 0")
        case True
        with mine_eq [OF that] g f1 show ?thesis by (simp add: bodyOk_def)
      next
        case False
        with mine_eq [OF that] g f1 currentFines_none [OF g(2)] show ?thesis
          by (simp add: bodyOk_def linked_def)
      qed
      show "groupUserId row \<in> fst ` set bs
            \<and> (\<exists>user0. findUser (groupUserId row) db0 = Some user0 \<and> currentFines user0 = None)"
        if "row \<in> set (gs @ [?row])" "row \<notin> set gs" for row
      proof -
        from that have "row = ?row" by auto
        with k u0 g(2) show ?thesis by auto
      qed
      have fin: "finished (ps[k := ?p]) bs = finished ps bs"
        using Grouping by (intro same) (simp_all add: stepsLeft_def)
      show "mset (map (\<lambda>t. (fromId t, toId t, amount t)) ts)
           = mset (map (\<lambda>b. (Some (fst b), None :: nat option, calculateFine (snd b)))
                     (finished (ps[k := ?p]) bs))"
        unfolding fin by (rule d(9))
      show "mset (map mailTo emails) = mset (map fst (finished (ps[k := ?p]) bs))"
        unfolding fin using d(10) st by simp
    qed
    with step show ?thesis by blast
  next
    case (Marking user grp)
    with ok st have g: "user = user0" "currentFines user0 = None" "0 < ?amt"
      "findUser (fst ?b) db = Some user0"
      "\<exists>row \<in> set gs. groupId row = grp \<and> groupUserId row = fst ?b"
      by (simp_all add: bodyOk_def)
    let ?db1 = "saveUser (user0\<lparr>currentFines := Some grp\<rparr>) db"
    let ?p = "Debiting user0 grp []"
    from Marking g st
    have step: "advance bal rejected date previous event ?b (ps ! k) st = (Inr ?p, (?db1, emails))"
      by (simp add: advance_def Let_def)
    have "handoutInv event bs db0 (ps[k := ?p]) (?db1, emails) ts gs"
    proof (rule handoutInv_step [OF inv k dist])
      show "transferTable ?db1 = transferTable db0 @ ts" using d(2) st by (simp add: saveUser_def)
      show "userFineGroupTable ?db1 = userFineGroupTable db0 @ gs"
        using d(3) st by (simp add: saveUser_def)
      show "fineTable ?db1 = fineTable db0" using d(4) st by (simp add: saveUser_def)
      show "fineHandoutEventTable ?db1 = fineHandoutEventTable db0"
        using d(5) st by (simp add: saveUser_def)
      show "set ts \<subseteq> set ts" "set gs \<subseteq> set gs" by simp_all
      show "findUser v ?db1 = findUser v (fst st)" if "v \<noteq> fst ?b" for v
        using that uid st by (simp add: findUser_saveUser_other)
      show "bodyOk event ?b user ?p ts gs ?db1" if "findUser (fst ?b) db0 = Some user" for user
        using mine_eq [OF that] g uid
          findUser_saveUser [OF g(4), of "user0\<lparr>currentFines := Some grp\<rparr>"]
        by (simp add: bodyOk_def linked_def)
      show "groupUserId row \<in> fst ` set bs
            \<and> (\<exists>user0. findUser (groupUserId row) db0 = Some user0 \<and> currentFines user0 = None)"
        if "row \<in> set gs" "row \<notin> set gs" for row using that by simp
      have fin: "finished (ps[k := ?p]) bs = finished ps bs"
        using Marking by (intro same) (simp_all add: stepsLeft_def)
      show "mset (map (\<lambda>t. (fromId t, toId t, amount t)) ts)
           = mset (map (\<lambda>b. (Some (fst b), None :: nat option, calculateFine (snd b)))
                     (finished (ps[k := ?p]) bs))"
        unfolding fin by (rule d(9))
      show "mset (map mailTo emails) = mset (map fst (finished (ps[k := ?p]) bs))"
        unfolding fin using d(10) st by simp
    qed
    with step show ?thesis by blast
  next
    case (Debiting user grp fines)
    with ok st have g: "user = user0" "linked ?b user0 grp gs db"
      by (simp_all add: bodyOk_def)
    let ?t = "debit ?amt (fst ?b) (FineForBalance (snd ?b) date) db"
    let ?db1 = "db\<lparr>transferTable := transferTable db @ [?t]\<rparr>"
    let ?fine = "\<lparr>fineId = 0, fineHandoutEvent = event, userFineGroup = grp,
        fineAmount = ?amt, previousFine = previous (fst ?b), transfer = transferId ?t\<rparr>"
    let ?mail = "\<lparr>mailTo = fst ?b, mailName = firstName user0, mailFine = ?amt,
        mailBalance = snd ?b, mailReferenceDate = date,
        totalFine = sum_list (map fineAmount fines) + ?amt\<rparr>"
    let ?p = "Fined ?fine"
    from Debiting g st uid createTransfer_debit [of rejected ?amt "fst ?b" _ db bal] nr
    have step: "advance bal rejected date previous event ?b (ps ! k) st
        = (Inr ?p, (?db1, emails @ [?mail]))"
      by (simp add: advance_def Let_def)
    have f1: "findUser v ?db1 = findUser v db" for v by (simp add: findUser_def)
    have "handoutInv event bs db0 (ps[k := ?p]) (?db1, emails @ [?mail]) (ts @ [?t]) gs"
    proof (rule handoutInv_step [OF inv k dist])
      show "transferTable ?db1 = transferTable db0 @ ts @ [?t]" using d(2) st by simp
      show "userFineGroupTable ?db1 = userFineGroupTable db0 @ gs" using d(3) st by simp
      show "fineTable ?db1 = fineTable db0" using d(4) st by simp
      show "fineHandoutEventTable ?db1 = fineHandoutEventTable db0" using d(5) st by simp
      show "set ts \<subseteq> set (ts @ [?t])" "set gs \<subseteq> set gs" by auto
      show "findUser v ?db1 = findUser v (fst st)" for v using st f1 by simp
      show "bodyOk event ?b user ?p (ts @ [?t]) gs ?db1"
        if "findUser (fst ?b) db0 = Some user" for user
      proof -
        have "linked ?b user0 grp gs ?db1"
          using g(2) by (rule linked_mono) (simp_all add: f1)
        with mine_eq [OF that] show ?thesis
          by (simp add: bodyOk_def debit_def)
      qed
      show "groupUserId row \<in> fst ` set bs
            \<and> (\<exists>user0. findUser (groupUserId row) db0 = Some user0 \<and> currentFines user0 = None)"
        if "row \<in> set gs" "row \<notin> set gs" for row using that by simp
      have fin: "mset (finished (ps[k := ?p]) bs) = add_mset ?b (mset (finished ps bs))"
        using kp d(1) Debiting by (intro finished_more) (simp_all add: stepsLeft_def)
      have "mset (map (\<lambda>b. (Some (fst b), None :: nat option, calculateFine (snd b)))
                     (finished (ps[k := ?p]) bs))
          = add_mset (Some (fst ?b), None, ?amt)
              (mset (map (\<lambda>b. (Some (fst b), None :: nat option, calculateFine (snd b)))
                     (finished ps bs)))"
        unfolding mset_map fin by simp
      with d(9) show "mset (map (\<lambda>t. (fromId t, toId t, amount t)) (ts @ [?t]))
           = mset (map (\<lambda>b. (Some (fst b), None :: nat option, calculateFine (snd b)))
                     (finished (ps[k := ?p]) bs))"
        by (simp add: debit_def)
      have "mset (map fst (finished (ps[k := ?p]) bs))
          = add_mset (fst ?b) (mset (map fst (finished ps bs)))"
        unfolding mset_map fin by simp
      with d(10) st
      show "mset (map mailTo (emails @ [?mail])) = mset (map fst (finished (ps[k := ?p]) bs))"
        by simp
    qed
    with step show ?thesis by blast
  next
    case (Fined fine)
    with st have step: "advance bal rejected date previous event ?b (ps ! k) st
        = (Inr (Fined fine), st)"
      by (simp add: advance_def Let_def)
    from Fined have "ps[k := Fined fine] = ps" by (metis list_update_id)
    with inv step show ?thesis by auto
  qed
qed

lemma interleave_inv:
  assumes nr: "\<And>t. \<not> rejected t" and dist: "distinct (map fst bs)"
    and found: "\<And>b. b \<in> set bs \<Longrightarrow> findUser (fst b) db0 \<noteq> None"
  shows "handoutInv event bs db0 ps st ts gs \<Longrightarrow>
     \<exists>ps' st' ts' gs'.
        interleave (\<lambda>i. advance bal rejected date previous event (bs ! i)) schedule ps st
          = (Inr ps', st')
        \<and> handoutInv event bs db0 ps' st' ts' gs'"
proof (induction schedule arbitrary: ps st ts gs)
  case Nil
  then show ?case by auto
next
  case (Cons k schedule)
  note len = handoutInvD(1) [OF Cons.prems]
  show ?case
  proof (cases "k < length ps")
    case False
    with Cons.IH [OF Cons.prems] show ?thesis by simp
  next
    case True
    with len have k: "k < length bs" by simp
    from advance_inv [where rejected = rejected and bs = bs and bal = bal
        and date = date and previous = previous,
        OF nr dist found Cons.prems k]
    obtain p st1 ts1 gs1 where
      step: "advance bal rejected date previous event (bs ! k) (ps ! k) st = (Inr p, st1)"
      and inv1: "handoutInv event bs db0 (ps[k := p]) st1 ts1 gs1"
      by blast
    from Cons.IH [OF inv1] step True show ?thesis by simp
  qed
qed

text \<open>When the loop returns, every body has returned.\<close>

lemma interleave_complete:
  assumes "interleave (\<lambda>i. advance bal rejected date previous event (bs ! i))
             (schedule @ concat (replicate 4 [0..<length bs]))
             (replicate (length bs) Finding) st = (Inr ps, st')"
  shows "length ps = length bs \<and> (\<forall>i < length bs. stepsLeft (ps ! i) = 0)"
proof -
  let ?step = "\<lambda>i. advance bal rejected date previous event (bs ! i)"
  let ?start = "replicate (length bs) Finding"
  have progress: "stepsLeft p' \<le> stepsLeft p - 1" if "?step i p s = (Inr p', s')" for i p s p' s'
    using that by (rule advance_progress)
  from assms obtain ps1 st1 where
    first: "interleave ?step schedule ?start st = (Inr ps1, st1)"
    and rest: "interleave ?step (concat (replicate 4 [0..<length bs])) ps1 st1 = (Inr ps, st')"
    by (auto simp: interleave_append split: prod.splits sum.splits)
  from interleave_steps [of ?step stepsLeft, OF progress first]
  have len1: "length ps1 = length bs"
    and le: "\<And>i. i < length bs \<Longrightarrow> stepsLeft (ps1 ! i) \<le> stepsLeft (?start ! i)"
    by simp_all
  have "\<forall>i < length ps1. stepsLeft (ps1 ! i) \<le> 4"
  proof (intro allI impI)
    fix i assume "i < length ps1"
    with len1 have i: "i < length bs" by simp
    with le [OF i] show "stepsLeft (ps1 ! i) \<le> 4" by (simp add: stepsLeft_def)
  qed
  with interleave_rounds [of ?step stepsLeft 4 ps1 st1 ps st', OF progress] rest len1
  show ?thesis by simp
qed

lemma returned_all:
  "\<forall>i < length ps. stepsLeft (ps ! i) = 0 \<Longrightarrow>
   length (concat (map returned ps)) = length ps
   \<and> (\<forall>i < length ps. ps ! i = Fined (concat (map returned ps) ! i))"
proof (induction ps)
  case Nil
  then show ?case by simp
next
  case (Cons p ps)
  from Cons.prems have p: "stepsLeft p = 0" and rest: "\<forall>i < length ps. stepsLeft (ps ! i) = 0"
    by auto
  from p obtain fine where fine: "p = Fined fine"
    by (cases p) (simp_all add: stepsLeft_def)
  from Cons.IH [OF rest] fine show ?case
    by (auto simp: returned_def nth_Cons split: nat.splits)
qed

text \<open>
  The loop, when no insert is rejected and every record names a user, whatever the
  schedule: it returns one fine per record, in the order of the records.
\<close>

lemma fineUsers_ok:
  assumes nr: "\<And>t. \<not> rejected t" and dist: "distinct (map fst bs)"
    and found: "\<And>b. b \<in> set bs \<Longrightarrow> findUser (fst b) db0 \<noteq> None"
  shows "\<exists>fines db' emails ts gs.
      fineUsers bal rejected date previous event schedule bs (db0, []) = (Inr fines, (db', emails))
      \<and> transferTable db' = transferTable db0 @ ts
      \<and> userFineGroupTable db' = userFineGroupTable db0 @ gs
      \<and> fineTable db' = fineTable db0
      \<and> fineHandoutEventTable db' = fineHandoutEventTable db0
      \<and> (\<forall>v. v \<notin> fst ` set bs \<longrightarrow> findUser v db' = findUser v db0)
      \<and> length fines = length bs
      \<and> (\<forall>i < length bs. \<forall>user0. findUser (fst (bs ! i)) db0 = Some user0 \<longrightarrow>
            bodyOk event (bs ! i) user0 (Fined (fines ! i)) ts gs db')
      \<and> (\<forall>row \<in> set gs. groupUserId row \<in> fst ` set bs
            \<and> (\<exists>user0. findUser (groupUserId row) db0 = Some user0 \<and> currentFines user0 = None))
      \<and> mset (map (\<lambda>t. (fromId t, toId t, amount t)) ts)
          = mset (map (\<lambda>b. (Some (fst b), None :: nat option, calculateFine (snd b))) bs)
      \<and> mset (map mailTo emails) = mset (map fst bs)"
proof -
  let ?step = "\<lambda>i. advance bal rejected date previous event (bs ! i)"
  let ?start = "replicate (length bs) Finding"
  let ?all = "schedule @ concat (replicate 4 [0..<length bs])"
  have init: "handoutInv event bs db0 ?start (db0, []) [] []"
  proof (rule handoutInvI)
    show "bodyOk event (bs ! i) user0 (?start ! i) [] [] db0"
      if "i < length bs" "findUser (fst (bs ! i)) db0 = Some user0" for i user0
      using that by (simp add: bodyOk_def)
  qed (simp_all add: finished_start)
  from interleave_inv [where rejected = rejected and bs = bs and bal = bal
      and date = date and previous = previous
      and schedule = ?all, OF nr dist found init]
  obtain ps st' ts gs where run: "interleave ?step ?all ?start (db0, []) = (Inr ps, st')"
    and inv: "handoutInv event bs db0 ps st' ts gs"
    by blast
  obtain db' emails where st': "st' = (db', emails)" by (cases st')
  note d = handoutInvD [OF inv]
  from interleave_complete [OF run] have len: "length ps = length bs"
    and ended: "\<forall>i < length bs. stepsLeft (ps ! i) = 0" by simp_all
  let ?fines = "concat (map returned ps)"
  from returned_all [of ps] ended len
  have lf: "length ?fines = length bs" and nth: "\<And>i. i < length bs \<Longrightarrow> ps ! i = Fined (?fines ! i)"
    by simp_all
  from finished_all [OF len] ended len have fin: "finished ps bs = bs" by simp
  have res: "fineUsers bal rejected date previous event schedule bs (db0, [])
      = (Inr ?fines, (db', emails))"
    using run st' by (simp add: fineUsers_def)
  have each: "\<forall>i < length bs. \<forall>user0. findUser (fst (bs ! i)) db0 = Some user0 \<longrightarrow>
            bodyOk event (bs ! i) user0 (Fined (?fines ! i)) ts gs db'"
    using d(7) nth st' by simp
  have groups: "\<forall>row \<in> set gs. groupUserId row \<in> fst ` set bs
            \<and> (\<exists>user0. findUser (groupUserId row) db0 = Some user0 \<and> currentFines user0 = None)"
    using d(8) by blast
  have frame: "\<forall>v. v \<notin> fst ` set bs \<longrightarrow> findUser v db' = findUser v db0"
    using d(6) st' by simp
  from d(2,3,4,5) st' have tabs: "transferTable db' = transferTable db0 @ ts"
    "userFineGroupTable db' = userFineGroupTable db0 @ gs" "fineTable db' = fineTable db0"
    "fineHandoutEventTable db' = fineHandoutEventTable db0" by simp_all
  from d(9,10) st' fin
  have counts: "mset (map (\<lambda>t. (fromId t, toId t, amount t)) ts)
          = mset (map (\<lambda>b. (Some (fst b), None :: nat option, calculateFine (snd b))) bs)"
    "mset (map mailTo emails) = mset (map fst bs)" by simp_all
  from res tabs frame lf each groups counts show ?thesis by blast
qed




lemma saveFines_rows:
  "saveFines fs db = (rows, db') \<Longrightarrow>
   fineTable db' = fineTable db @ rows
   \<and> list_all2 (\<lambda>f row. fineAmount row = fineAmount f \<and> transfer row = transfer f
         \<and> fineHandoutEvent row = fineHandoutEvent f \<and> userFineGroup row = userFineGroup f
         \<and> previousFine row = previousFine f) fs rows
   \<and> userTable db' = userTable db \<and> transferTable db' = transferTable db
   \<and> userFineGroupTable db' = userFineGroupTable db
   \<and> fineHandoutEventTable db' = fineHandoutEventTable db"
proof (induction fs arbitrary: db rows db')
  case Nil
  then show ?case by simp
next
  case (Cons f fs)
  let ?row = "f\<lparr>fineId := newId (map fineId (fineTable db))\<rparr>"
  let ?db1 = "db\<lparr>fineTable := fineTable db @ [?row]\<rparr>"
  obtain rows1 db2 where rest: "saveFines fs ?db1 = (rows1, db2)" by (cases "saveFines fs ?db1")
  with Cons.prems have eq: "rows = ?row # rows1" "db' = db2" by (simp_all add: Let_def)
  from Cons.IH [OF rest] eq show ?case by simp
qed

lemma findUser_member:
  "findUser u db = Some user \<Longrightarrow> user \<in> set (userTable db)"
  unfolding findUser_def by (drule find_userId) simp

lemma getBalances_ids:
  "getBalances bal None date None (Some ids) db
     = map (\<lambda>x. (userId x, bal db date (userId x))) (filter (\<lambda>x. userId x \<in> set ids) (userTable db))"
  by (simp add: getBalances_def)

lemma getBalances_distinct:
  "distinct (map userId (userTable db)) \<Longrightarrow>
   distinct (map fst (getBalances bal None date None (Some ids) db))"
  by (simp add: getBalances_ids comp_def distinct_map_filter)

lemma getBalances_found:
  "b \<in> set (getBalances bal None date None (Some ids) db) \<Longrightarrow> findUser (fst b) db \<noteq> None"
  by (auto simp: getBalances_ids findUser_def find_None_iff)

lemma handOutFines_unfold:
  "handOutFines bal rejected schedule now refDate userIds creator db =
     (case fineUsers bal rejected (handoutDate now refDate db)
             (\<lambda>uid. findPreviousFine (lastEvent db) uid db)
             (eventId (newEvent now refDate creator db)) schedule
             (getBalances bal None (Some (handoutDate now refDate db)) None (Some userIds) db)
             (db\<lparr>fineHandoutEventTable :=
                   fineHandoutEventTable db @ [newEvent now refDate creator db]\<rparr>, []) of
        (Inl e, st) \<Rightarrow> ((Inl e, db), [])
      | (Inr fines, st) \<Rightarrow>
          (case saveFines fines (fst st) of
             (fines1, db2) \<Rightarrow> ((Inr (newEvent now refDate creator db, fines1), db2), snd st)))"
  by (simp add: handOutFines_def transaction_def handoutDate_def newEvent_def Let_def
      split: prod.splits sum.splits)



text \<open>
  The call when no insert is rejected, for every schedule: one event, and for the balance
  records in their order one fine each, with the transfers, groups and mails of the loop.
\<close>

lemma handOutFines_ok:
  assumes nr: "\<And>t. \<not> rejected t" and dist: "distinct (map userId (userTable db))"
    and bs: "bs = getBalances bal None (Some (handoutDate now refDate db)) None (Some userIds) db"
  shows "\<exists>rows db' mails ts gs.
      handOutFines bal rejected schedule now refDate userIds creator db
        = ((Inr (newEvent now refDate creator db, rows), db'), mails)
      \<and> fineTable db' = fineTable db @ rows
      \<and> transferTable db' = transferTable db @ ts
      \<and> userFineGroupTable db' = userFineGroupTable db @ gs
      \<and> fineHandoutEventTable db'
          = fineHandoutEventTable db @ [newEvent now refDate creator db]
      \<and> length rows = length bs
      \<and> (\<forall>i < length bs. \<forall>user0. findUser (fst (bs ! i)) db = Some user0 \<longrightarrow>
            bodyOk (eventId (newEvent now refDate creator db)) (bs ! i) user0
              (Fined (rows ! i)) ts gs db')
      \<and> (\<forall>row \<in> set gs. groupUserId row \<in> fst ` set bs
            \<and> (\<exists>user0. findUser (groupUserId row) db = Some user0 \<and> currentFines user0 = None))
      \<and> mset (map (\<lambda>t. (fromId t, toId t, amount t)) ts)
          = mset (map (\<lambda>b. (Some (fst b), None :: nat option, calculateFine (snd b))) bs)
      \<and> mset (map mailTo mails) = mset (map fst bs)"
proof -
  let ?ev = "newEvent now refDate creator db"
  let ?db1 = "db\<lparr>fineHandoutEventTable := fineHandoutEventTable db @ [?ev]\<rparr>"
  have same1: "findUser v ?db1 = findUser v db" for v by (simp add: findUser_def)
  from dist bs have dist': "distinct (map fst bs)" by (simp add: getBalances_distinct)
  have found: "findUser (fst b) ?db1 \<noteq> None" if "b \<in> set bs" for b
    using that bs getBalances_found [of b bal _ userIds db] by (simp add: same1)
  from fineUsers_ok [where rejected = rejected and bs = bs and bal = bal
      and date = "handoutDate now refDate db"
      and previous = "\<lambda>uid. findPreviousFine (lastEvent db) uid db"
      and event = "eventId ?ev" and schedule = schedule, OF nr dist' found]
  obtain fines db2 mails ts gs where
    loop: "fineUsers bal rejected (handoutDate now refDate db)
             (\<lambda>uid. findPreviousFine (lastEvent db) uid db) (eventId ?ev) schedule bs (?db1, [])
           = (Inr fines, (db2, mails))"
    and tabs: "transferTable db2 = transferTable ?db1 @ ts"
      "userFineGroupTable db2 = userFineGroupTable ?db1 @ gs"
      "fineTable db2 = fineTable ?db1" "fineHandoutEventTable db2 = fineHandoutEventTable ?db1"
    and len: "length fines = length bs"
    and each: "\<forall>i < length bs. \<forall>user0. findUser (fst (bs ! i)) ?db1 = Some user0 \<longrightarrow>
            bodyOk (eventId ?ev) (bs ! i) user0 (Fined (fines ! i)) ts gs db2"
    and groups: "\<forall>row \<in> set gs. groupUserId row \<in> fst ` set bs
            \<and> (\<exists>user0. findUser (groupUserId row) ?db1 = Some user0 \<and> currentFines user0 = None)"
    and counts: "mset (map (\<lambda>t. (fromId t, toId t, amount t)) ts)
          = mset (map (\<lambda>b. (Some (fst b), None :: nat option, calculateFine (snd b))) bs)"
      "mset (map mailTo mails) = mset (map fst bs)"
    by blast
  obtain rows db3 where save: "saveFines fines db2 = (rows, db3)" by (cases "saveFines fines db2")
  note saved = saveFines_rows [OF save]
  from saved have fields: "list_all2 (\<lambda>f row. fineAmount row = fineAmount f \<and> transfer row = transfer f
         \<and> fineHandoutEvent row = fineHandoutEvent f \<and> userFineGroup row = userFineGroup f
         \<and> previousFine row = previousFine f) fines rows" by blast
  then have lrows: "length rows = length bs" using len by (simp add: list_all2_lengthD)
  from saved have users: "userTable db3 = userTable db2" by blast
  have res: "handOutFines bal rejected schedule now refDate userIds creator db
        = ((Inr (?ev, rows), db3), mails)"
    unfolding handOutFines_unfold using loop save bs by simp
  have body: "bodyOk (eventId ?ev) (bs ! i) user0 (Fined (rows ! i)) ts gs db3"
    if i: "i < length bs" and u: "findUser (fst (bs ! i)) db = Some user0" for i user0
  proof -
    from each i u have ok: "bodyOk (eventId ?ev) (bs ! i) user0 (Fined (fines ! i)) ts gs db2"
      by (simp add: same1)
    from fields i len have eq: "fineAmount (rows ! i) = fineAmount (fines ! i)"
      "transfer (rows ! i) = transfer (fines ! i)"
      "fineHandoutEvent (rows ! i) = fineHandoutEvent (fines ! i)"
      "userFineGroup (rows ! i) = userFineGroup (fines ! i)"
      by (simp_all add: list_all2_conv_all_nth)
    from ok have ok': "bodyOk (eventId ?ev) (bs ! i) user0 (Fined (rows ! i)) ts gs db2"
      by (simp add: bodyOk_def eq)
    have "findUser (fst (bs ! i)) db3 = findUser (fst (bs ! i)) db2"
      using users by (rule findUser_tables)
    from bodyOk_mono [OF ok' subset_refl subset_refl this] show ?thesis .
  qed
  from saved tabs have t3: "fineTable db3 = fineTable db @ rows"
    "transferTable db3 = transferTable db @ ts"
    "userFineGroupTable db3 = userFineGroupTable db @ gs"
    "fineHandoutEventTable db3 = fineHandoutEventTable db @ [?ev]"
    by simp_all
  from groups have groups': "\<forall>row \<in> set gs. groupUserId row \<in> fst ` set bs
            \<and> (\<exists>user0. findUser (groupUserId row) db = Some user0 \<and> currentFines user0 = None)"
    by (simp add: same1)
  from res t3 lrows body groups' counts show ?thesis by blast
qed

lemma calculateFine_zero: "- 500 < a \<Longrightarrow> calculateFine a = 0"
  by (simp add: calculateFine_def Let_def)

lemma four_rounds: "concat (replicate 4 xs) = xs @ xs @ xs @ xs"
  by (simp add: numeral_eq_Suc)

lemmas handout_defs = handOutFines_def transaction_def fineUsers_def advance_def returned_def
  saveFines.simps getBalances_def findUser_def saveUser_def createTransfer_def validateDebtPaid_def
  lastEvent_def findPreviousFine_def newId_def calculateFine_def datedBalance_def Let_def
  rejectsNothing_def rejectsUser2_def four_rounds upt_rec



text \<open>
  C10, as amended. When the database accepts every insert and user ids are unique,
  \<open>handOutFines\<close> succeeds for every order of the steps of the loop, and for every user
  id passed in that names a user, whatever the balance \<open>a\<close> of that user on the
  reference date: a fine of \<open>calculateFine a\<close> is added for
  the new event, with a transfer from the user to nobody of the same amount; both amounts
  are 0 when \<open>a\<close> is above -500. A user with an active fine group gets the fine in that
  group and no new group. For a user without one, a new group is saved and the fine is in
  it, and the group becomes the user's \<open>currentFines\<close> exactly when the fine is positive.
\<close>

theorem handOutFines_no_eligibility_check:
  "(distinct (map userId (userTable db)) \<and> (\<forall>t. \<not> rejected t)
   \<and> date = (case refDate of
               Some d \<Rightarrow> d
             | None \<Rightarrow> (case lastEvent db of Some e \<Rightarrow> createdAt e | None \<Rightarrow> now))
   \<and> findUser u db = Some user \<and> u \<in> set userIds \<and> a = bal db (Some date) u
   \<longrightarrow> (\<exists>ev fines db' mails ts gs.
          handOutFines bal rejected schedule now refDate userIds creator db
            = ((Inr (ev, fines), db'), mails)
        \<and> fineTable db' = fineTable db @ fines
        \<and> transferTable db' = transferTable db @ ts
        \<and> userFineGroupTable db' = userFineGroupTable db @ gs
        \<and> (\<exists>f \<in> set fines. \<exists>t \<in> set ts.
               fineAmount f = calculateFine a \<and> fineHandoutEvent f = eventId ev
             \<and> transfer f = transferId t
             \<and> fromId t = Some u \<and> toId t = None \<and> amount t = calculateFine a
             \<and> (case currentFines user of
                   Some g \<Rightarrow> userFineGroup f = g \<and> u \<notin> groupUserId ` set gs
                              \<and> findUser u db' = Some user
                 | None \<Rightarrow>
                     (\<exists>grp \<in> set gs. groupUserId grp = u \<and> userFineGroup f = groupId grp
                        \<and> findUser u db'
                            = Some (user\<lparr>currentFines :=
                                      (if 0 < calculateFine a then Some (groupId grp) else None)\<rparr>))))))
   \<and> (- 500 < a \<longrightarrow> calculateFine a = 0)"
proof (intro impI conjI)
  assume "- 500 < a"
  then show "calculateFine a = 0" by (rule calculateFine_zero)
next
  assume asm: "distinct (map userId (userTable db)) \<and> (\<forall>t. \<not> rejected t)
   \<and> date = (case refDate of
               Some d \<Rightarrow> d
             | None \<Rightarrow> (case lastEvent db of Some e \<Rightarrow> createdAt e | None \<Rightarrow> now))
   \<and> findUser u db = Some user \<and> u \<in> set userIds \<and> a = bal db (Some date) u"
  then have date: "date = handoutDate now refDate db" by (simp add: handoutDate_def)
  let ?bs = "getBalances bal None (Some (handoutDate now refDate db)) None (Some userIds) db"
  let ?ev = "newEvent now refDate creator db"
  from asm have nr: "\<And>t. \<not> rejected t" and dist: "distinct (map userId (userTable db))"
    and user: "findUser u db = Some user" by simp_all
  from user have uid: "userId user = u" and mem: "user \<in> set (userTable db)"
    by (simp_all add: findUser_userId findUser_member)
  with asm date have b: "(u, a) \<in> set ?bs"
    by (auto simp: getBalances_ids image_iff)
  from b obtain i where i: "i < length ?bs" "?bs ! i = (u, a)" by (auto simp: in_set_conv_nth)
  from handOutFines_ok [where rejected = rejected and bal = bal and now = now
      and refDate = refDate and userIds = userIds and creator = creator
      and schedule = schedule, OF nr dist refl]
  obtain fines db' mails ts gs where
    res: "handOutFines bal rejected schedule now refDate userIds creator db
        = ((Inr (?ev, fines), db'), mails)"
    and tabs: "fineTable db' = fineTable db @ fines" "transferTable db' = transferTable db @ ts"
      "userFineGroupTable db' = userFineGroupTable db @ gs"
    and len: "length fines = length ?bs"
    and each: "\<forall>i < length ?bs. \<forall>user0. findUser (fst (?bs ! i)) db = Some user0 \<longrightarrow>
            bodyOk (eventId ?ev) (?bs ! i) user0 (Fined (fines ! i)) ts gs db'"
    and groups: "\<forall>row \<in> set gs. groupUserId row \<in> fst ` set ?bs
            \<and> (\<exists>user0. findUser (groupUserId row) db = Some user0 \<and> currentFines user0 = None)"
    by blast
  let ?f = "fines ! i"
  from i len have f: "?f \<in> set fines" by simp
  from each i user have "bodyOk (eventId ?ev) (u, a) user (Fined ?f) ts gs db'" by auto
  then have amt: "fineAmount ?f = calculateFine a" "fineHandoutEvent ?f = eventId ?ev"
    and tr: "\<exists>t \<in> set ts. transfer ?f = transferId t \<and> fromId t = Some u
                 \<and> toId t = None \<and> amount t = calculateFine a"
    and link: "linked (u, a) user (userFineGroup ?f) gs db'"
    by (simp_all add: bodyOk_def)
  from tr obtain t where t: "t \<in> set ts" "transfer ?f = transferId t" "fromId t = Some u"
    "toId t = None" "amount t = calculateFine a" by blast
  have nogroup: "u \<notin> groupUserId ` set gs" if "currentFines user = Some g" for g
  proof
    assume "u \<in> groupUserId ` set gs"
    with groups have "\<exists>x. findUser u db = Some x \<and> currentFines x = None" by auto
    with user that show False by simp
  qed
  have grp': "(case currentFines user of
                   Some g \<Rightarrow> userFineGroup ?f = g \<and> u \<notin> groupUserId ` set gs
                              \<and> findUser u db' = Some user
                 | None \<Rightarrow>
                     (\<exists>grp \<in> set gs. groupUserId grp = u \<and> userFineGroup ?f = groupId grp
                        \<and> findUser u db'
                            = Some (user\<lparr>currentFines :=
                                      (if 0 < calculateFine a then Some (groupId grp) else None)\<rparr>)))"
  proof (cases "currentFines user")
    case None
    with link show ?thesis by (auto simp: linked_def)
  next
    case (Some g)
    with link nogroup show ?thesis by (simp add: linked_def)
  qed
  from t amt grp' have "\<exists>t \<in> set ts.
               fineAmount ?f = calculateFine a \<and> fineHandoutEvent ?f = eventId ?ev
             \<and> transfer ?f = transferId t
             \<and> fromId t = Some u \<and> toId t = None \<and> amount t = calculateFine a
             \<and> (case currentFines user of
                   Some g \<Rightarrow> userFineGroup ?f = g \<and> u \<notin> groupUserId ` set gs
                              \<and> findUser u db' = Some user
                 | None \<Rightarrow>
                     (\<exists>grp \<in> set gs. groupUserId grp = u \<and> userFineGroup ?f = groupId grp
                        \<and> findUser u db'
                            = Some (user\<lparr>currentFines :=
                                      (if 0 < calculateFine a then Some (groupId grp) else None)\<rparr>)))"
    by (intro bexI [of _ t]) simp_all
  with f have "\<exists>f \<in> set fines. \<exists>t \<in> set ts.
               fineAmount f = calculateFine a \<and> fineHandoutEvent f = eventId ?ev
             \<and> transfer f = transferId t
             \<and> fromId t = Some u \<and> toId t = None \<and> amount t = calculateFine a
             \<and> (case currentFines user of
                   Some g \<Rightarrow> userFineGroup f = g \<and> u \<notin> groupUserId ` set gs
                              \<and> findUser u db' = Some user
                 | None \<Rightarrow>
                     (\<exists>grp \<in> set gs. groupUserId grp = u \<and> userFineGroup f = groupId grp
                        \<and> findUser u db'
                            = Some (user\<lparr>currentFines :=
                                      (if 0 < calculateFine a then Some (groupId grp) else None)\<rparr>)))"
    by (rule bexI [rotated])
  with res tabs show "\<exists>ev fines db' mails ts gs.
          handOutFines bal rejected schedule now refDate userIds creator db
            = ((Inr (ev, fines), db'), mails)
        \<and> fineTable db' = fineTable db @ fines
        \<and> transferTable db' = transferTable db @ ts
        \<and> userFineGroupTable db' = userFineGroupTable db @ gs
        \<and> (\<exists>f \<in> set fines. \<exists>t \<in> set ts.
               fineAmount f = calculateFine a \<and> fineHandoutEvent f = eventId ev
             \<and> transfer f = transferId t
             \<and> fromId t = Some u \<and> toId t = None \<and> amount t = calculateFine a
             \<and> (case currentFines user of
                   Some g \<Rightarrow> userFineGroup f = g \<and> u \<notin> groupUserId ` set gs
                              \<and> findUser u db' = Some user
                 | None \<Rightarrow>
                     (\<exists>grp \<in> set gs. groupUserId grp = u \<and> userFineGroup f = groupId grp
                        \<and> findUser u db'
                            = Some (user\<lparr>currentFines :=
                                      (if 0 < calculateFine a then Some (groupId grp) else None)\<rparr>))))"
    by blast
qed

theorem handOutFines_no_eligibility_check_witness:
  "findUser 2 finedLedger = Some \<lparr>userId = 2, firstName = ''Bob'', userType = 1, currentFines = None\<rparr>
   \<and> datedBalance finedLedger (Some 5) 2 = - 100
   \<and> handOutFines datedBalance rejectsNothing [0, 0] 30 (Some 5) [2] 9 finedLedger
       = ((Inr (\<lparr>eventId = 3, referenceDate = 5, createdBy = 9, createdAt = 30\<rparr>,
                [\<lparr>fineId = 3, fineHandoutEvent = 3, userFineGroup = 2, fineAmount = 0,
                  previousFine = None, transfer = 3\<rparr>]),
           finedLedger\<lparr>transferTable := transferTable finedLedger
                         @ [\<lparr>transferId = 3, fromId = Some 2, toId = None, amount = 0,
                              description = FineForBalance (- 100) 5\<rparr>],
                       fineHandoutEventTable := fineHandoutEventTable finedLedger
                         @ [\<lparr>eventId = 3, referenceDate = 5, createdBy = 9, createdAt = 30\<rparr>],
                       userFineGroupTable := userFineGroupTable finedLedger
                         @ [\<lparr>groupId = 2, groupUserId = 2, waivedTransfer = None\<rparr>],
                       fineTable := fineTable finedLedger
                         @ [\<lparr>fineId = 3, fineHandoutEvent = 3, userFineGroup = 2, fineAmount = 0,
                              previousFine = None, transfer = 3\<rparr>]\<rparr>),
          [\<lparr>mailTo = 2, mailName = ''Bob'', mailFine = 0, mailBalance = - 100,
             mailReferenceDate = 5, totalFine = 0\<rparr>])
   \<and> userFineGroupTable
         (snd (fst (handOutFines datedBalance rejectsNothing [0, 0] 30 (Some 5) [2] 9 finedLedger)))
       \<noteq> userFineGroupTable finedLedger"
proof -
  let ?bob = "\<lparr>userId = 2, firstName = ''Bob'', userType = 1, currentFines = None\<rparr>"
  have hyp: "distinct (map userId (userTable finedLedger)) \<and> (\<forall>t. \<not> rejectsNothing t)
   \<and> 5 = (case Some 5 of
               Some d \<Rightarrow> d
             | None \<Rightarrow> (case lastEvent finedLedger of Some e \<Rightarrow> createdAt e | None \<Rightarrow> 30))
   \<and> findUser 2 finedLedger = Some ?bob \<and> 2 \<in> set [2]
   \<and> - 100 = datedBalance finedLedger (Some 5) 2"
    by (simp add: finedLedger_def findUser_def datedBalance_def rejectsNothing_def)
  from handOutFines_no_eligibility_check [where db = finedLedger and rejected = rejectsNothing
      and date = 5 and refDate = "Some 5" and now = 30 and u = 2 and user = ?bob
      and userIds = "[2]" and schedule = "[0, 0]" and a = "- 100" and bal = datedBalance and creator = 9,
      THEN conjunct1, THEN mp, OF hyp]
  obtain ev fines db' mails ts gs grp where
    out: "handOutFines datedBalance rejectsNothing [0, 0] 30 (Some 5) [2] 9 finedLedger
            = ((Inr (ev, fines), db'), mails)"
    and gs: "userFineGroupTable db' = userFineGroupTable finedLedger @ gs" "grp \<in> set gs"
    by auto
  from gs have "userFineGroupTable db' \<noteq> userFineGroupTable finedLedger" by auto
  with out have created: "userFineGroupTable
         (snd (fst (handOutFines datedBalance rejectsNothing [0, 0] 30 (Some 5) [2] 9 finedLedger)))
       \<noteq> userFineGroupTable finedLedger" by simp
  have eval: "handOutFines datedBalance rejectsNothing [0, 0] 30 (Some 5) [2] 9 finedLedger
       = ((Inr (\<lparr>eventId = 3, referenceDate = 5, createdBy = 9, createdAt = 30\<rparr>,
                [\<lparr>fineId = 3, fineHandoutEvent = 3, userFineGroup = 2, fineAmount = 0,
                  previousFine = None, transfer = 3\<rparr>]),
           finedLedger\<lparr>transferTable := transferTable finedLedger
                         @ [\<lparr>transferId = 3, fromId = Some 2, toId = None, amount = 0,
                              description = FineForBalance (- 100) 5\<rparr>],
                       fineHandoutEventTable := fineHandoutEventTable finedLedger
                         @ [\<lparr>eventId = 3, referenceDate = 5, createdBy = 9, createdAt = 30\<rparr>],
                       userFineGroupTable := userFineGroupTable finedLedger
                         @ [\<lparr>groupId = 2, groupUserId = 2, waivedTransfer = None\<rparr>],
                       fineTable := fineTable finedLedger
                         @ [\<lparr>fineId = 3, fineHandoutEvent = 3, userFineGroup = 2, fineAmount = 0,
                              previousFine = None, transfer = 3\<rparr>]\<rparr>),
          [\<lparr>mailTo = 2, mailName = ''Bob'', mailFine = 0, mailBalance = - 100,
             mailReferenceDate = 5, totalFine = 0\<rparr>])"
    by (simp add: handout_defs finedLedger_def)
  from hyp eval created show ?thesis by simp
qed

text \<open>
  C10 as stated fails for a user who already has an active fine group: user 1 of the example
  ledger has balance -100 on the reference date, gets a fine and a transfer of 0, and no
  fine group is created.
\<close>

theorem handOutFines_group_not_created:
  "- 500 < datedBalance finedLedger (Some 5) 1
   \<and> fst (fst (handOutFines datedBalance rejectsNothing [] 30 (Some 5) [1] 9 finedLedger))
       = Inr (\<lparr>eventId = 3, referenceDate = 5, createdBy = 9, createdAt = 30\<rparr>,
              [\<lparr>fineId = 3, fineHandoutEvent = 3, userFineGroup = 1, fineAmount = 0,
                previousFine = Some 2, transfer = 3\<rparr>])
   \<and> transferTable (snd (fst (handOutFines datedBalance rejectsNothing [] 30 (Some 5) [1] 9 finedLedger)))
       = transferTable finedLedger
         @ [\<lparr>transferId = 3, fromId = Some 1, toId = None, amount = 0,
              description = FineForBalance (- 100) 5\<rparr>]
   \<and> userFineGroupTable (snd (fst (handOutFines datedBalance rejectsNothing [] 30 (Some 5) [1] 9 finedLedger)))
       = userFineGroupTable finedLedger"
  by (simp add: handout_defs finedLedger_def)


end
